theory Spec2Isabelle
  imports Complex_Main "HOL-Library.Multiset" "HOL-Library.Log_Nat"
begin

section \<open>JavaScript numbers\<close>

text \<open>
  Every amount in App.jsx is a JavaScript number: an IEEE 754 binary64 value. A finite one
  is kept as the rational it denotes; the two infinities and \<^verbatim>\<open>NaN\<close> are values of their
  own. The sign of zero is not kept: the code never divides by a computed value and never
  inspects the sign of a zero, and all comparisons treat the two zeros alike.
\<close>

datatype jsnum = Num rat | PInf | NInf | NaN

definition pow2 :: "int \<Rightarrow> rat" where
  "pow2 e = (if 0 \<le> e then 2 ^ nat e else 1 / 2 ^ nat (- e))"

text \<open>The integer part of the binary logarithm of a positive rational.\<close>

definition ilog2 :: "rat \<Rightarrow> int" where
  "ilog2 x = (case quotient_of x of (n, d) \<Rightarrow>
                (let k = bitlen n - bitlen d in if pow2 k \<le> x then k else k - 1))"

definition round_half_even :: "rat \<Rightarrow> int" where
  "round_half_even x =
     (let f = \<lfloor>x\<rfloor>; r = x - of_int f
      in if r < 1 / 2 then f else if 1 / 2 < r then f + 1 else if even f then f else f + 1)"

text \<open>
  Rounding of an exact result to binary64, to nearest with ties to even: 53 significant
  bits, the spacing never finer than \<open>2 ^ -1074\<close>, and overflow to an infinity when the
  rounded value reaches \<open>2 ^ 1024\<close>.
\<close>

definition round_double :: "rat \<Rightarrow> jsnum" where
  "round_double x =
     (if x = 0 then Num 0
      else (let e = max (ilog2 \<bar>x\<bar> - 52) (- 1074);
                y = of_int (round_half_even (\<bar>x\<bar> / pow2 e)) * pow2 e
            in if pow2 1024 \<le> y then (if 0 < x then PInf else NInf)
               else Num (if 0 < x then y else - y)))"

fun js_neg :: "jsnum \<Rightarrow> jsnum" where
  "js_neg (Num a) = Num (- a)"
| "js_neg PInf = NInf"
| "js_neg NInf = PInf"
| "js_neg NaN = NaN"

fun js_add :: "jsnum \<Rightarrow> jsnum \<Rightarrow> jsnum" where
  "js_add (Num a) (Num b) = round_double (a + b)"
| "js_add NaN y = NaN"
| "js_add x NaN = NaN"
| "js_add PInf NInf = NaN"
| "js_add NInf PInf = NaN"
| "js_add PInf y = PInf"
| "js_add x PInf = PInf"
| "js_add NInf y = NInf"
| "js_add x NInf = NInf"

definition js_sub :: "jsnum \<Rightarrow> jsnum \<Rightarrow> jsnum" where
  "js_sub x y = js_add x (js_neg y)"

text \<open>Division; the only divisor in the code is \<^verbatim>\<open>group.members.length\<close>.\<close>

fun js_div :: "jsnum \<Rightarrow> jsnum \<Rightarrow> jsnum" where
  "js_div (Num a) (Num b) =
     (if b = 0 then (if a = 0 then NaN else if 0 < a then PInf else NInf)
      else round_double (a / b))"
| "js_div NaN y = NaN"
| "js_div x NaN = NaN"
| "js_div (Num a) y = Num 0"
| "js_div x (Num b) = (if (x = PInf) = (0 \<le> b) then PInf else NInf)"
| "js_div x y = NaN"

fun js_lt :: "jsnum \<Rightarrow> jsnum \<Rightarrow> bool" where
  "js_lt (Num a) (Num b) = (a < b)"
| "js_lt NaN y = False"
| "js_lt x NaN = False"
| "js_lt x NInf = False"
| "js_lt PInf y = False"
| "js_lt x y = True"

definition js_gt :: "jsnum \<Rightarrow> jsnum \<Rightarrow> bool" where
  "js_gt x y = js_lt y x"

fun js_le :: "jsnum \<Rightarrow> jsnum \<Rightarrow> bool" where
  "js_le (Num a) (Num b) = (a \<le> b)"
| "js_le NaN y = False"
| "js_le x NaN = False"
| "js_le NInf y = True"
| "js_le x PInf = True"
| "js_le x y = False"

fun js_abs :: "jsnum \<Rightarrow> jsnum" where
  "js_abs (Num a) = Num \<bar>a\<bar>"
| "js_abs NaN = NaN"
| "js_abs x = PInf"

text \<open>\<^verbatim>\<open>Math.min\<close> of two numbers.\<close>

fun js_min :: "jsnum \<Rightarrow> jsnum \<Rightarrow> jsnum" where
  "js_min NaN y = NaN"
| "js_min x NaN = NaN"
| "js_min x y = (if js_lt y x then y else x)"

text \<open>The literal \<^verbatim>\<open>0.01\<close>: the binary64 value nearest to one hundredth.\<close>

definition tolerance :: jsnum where
  "tolerance = round_double 0.01"

section \<open>Data model of the expense splitter (App.jsx)\<close>

text \<open>
  Identifiers are the strings returned by \<^verbatim>\<open>crypto.randomUUID()\<close>, timestamps the
  strings returned by \<^verbatim>\<open>new Date().toISOString()\<close>. Strings are lists of 8-bit
  characters.
\<close>

type_synonym ident = string

type_synonym timestamp = string

record member =
  member_name :: string
  member_id :: ident

record group =
  group_id :: ident
  group_name :: string
  members :: "member list"
  createdAt :: timestamp

record split =
  split_memberId :: ident
  split_amount :: jsnum

record expense =
  exp_id :: ident
  exp_groupId :: ident
  exp_description :: string
  exp_amount :: jsnum
  exp_paidBy :: ident
  exp_splits :: "split list"
  exp_splitType :: string
  exp_date :: timestamp

record payment =
  pay_id :: ident
  pay_groupId :: ident
  pay_fromId :: ident
  pay_toId :: ident
  pay_amount :: jsnum
  pay_date :: timestamp

text \<open>The three React state collections \<^verbatim>\<open>groups\<close>, \<^verbatim>\<open>expenses\<close>, \<^verbatim>\<open>payments\<close>.\<close>

record store =
  groups :: "group list"
  expenses :: "expense list"
  payments :: "payment list"

datatype js_error = TypeError

section \<open>Mutations\<close>

text \<open>
  \<^verbatim>\<open>addGroup(name, members)\<close>. The results of \<^verbatim>\<open>crypto.randomUUID()\<close> in the order of
  the calls made while the page runs are the sequence \<open>uuid\<close>, and \<open>n\<close> of them have been
  drawn before the call: the group takes the next one, the members the ones after it, and
  the number drawn is returned with the new store. Persistence (\<^verbatim>\<open>saveData\<close>) and the
  flag of the dialog are not part of the ledger state.
\<close>

definition addGroup ::
  "(nat \<Rightarrow> ident) \<Rightarrow> nat \<Rightarrow> timestamp \<Rightarrow> store \<Rightarrow> string \<Rightarrow> string list \<Rightarrow> store \<times> nat" where
  "addGroup uuid n now st name ms =
     (let newGroup = \<lparr> group_id = uuid n,
                       group_name = name,
                       members = map (\<lambda>(k, m). \<lparr> member_name = m, member_id = uuid (Suc (n + k)) \<rparr>)
                                     (enumerate 0 ms),
                       createdAt = now \<rparr>;
          newGroups = groups st @ [newGroup]
      in (st \<lparr> groups := newGroups \<rparr>, Suc (n + length ms)))"

text \<open>
  \<^verbatim>\<open>addExpense(groupId, description, amount, paidBy, splitType, customSplits)\<close>; \<open>newId\<close>
  is the result of its call of \<^verbatim>\<open>crypto.randomUUID()\<close>. With
  \<^verbatim>\<open>splitType === 'equal'\<close> the code reads \<^verbatim>\<open>group.members\<close>, which throws a TypeError
  when no group has that id; any split type other than \<^verbatim>\<open>'equal'\<close> and \<^verbatim>\<open>'custom'\<close>
  leaves the splits empty.
\<close>

definition addExpense ::
  "ident \<Rightarrow> timestamp \<Rightarrow> store \<Rightarrow> ident \<Rightarrow> string \<Rightarrow> jsnum \<Rightarrow> ident \<Rightarrow> string \<Rightarrow> split list
     \<Rightarrow> js_error + store" where
  "addExpense newId now st groupId description amount paidBy splitType customSplits =
     (let grp = find (\<lambda>g. group_id g = groupId) (groups st);
          splits =
            (if splitType = ''equal'' then
               (case grp of
                  None \<Rightarrow> Inl TypeError
                | Some g \<Rightarrow>
                    (let perPerson = js_div amount (Num (of_nat (length (members g))))
                     in Inr (map (\<lambda>m. \<lparr> split_memberId = member_id m, split_amount = perPerson \<rparr>)
                                 (members g))))
             else if splitType = ''custom'' then Inr customSplits
             else Inr [])
      in case splits of
           Inl e \<Rightarrow> Inl e
         | Inr sp \<Rightarrow>
             (let newExpense = \<lparr> exp_id = newId, exp_groupId = groupId,
                                 exp_description = description, exp_amount = amount,
                                 exp_paidBy = paidBy, exp_splits = sp,
                                 exp_splitType = splitType, exp_date = now \<rparr>;
                  newExpenses = expenses st @ [newExpense]
              in Inr (st \<lparr> expenses := newExpenses \<rparr>)))"

text \<open>\<^verbatim>\<open>recordPayment(groupId, fromId, toId, amount)\<close>: no check of any argument.\<close>

definition recordPayment ::
  "ident \<Rightarrow> timestamp \<Rightarrow> store \<Rightarrow> ident \<Rightarrow> ident \<Rightarrow> ident \<Rightarrow> jsnum \<Rightarrow> store" where
  "recordPayment newId now st groupId fromId toId amount =
     (let newPayment = \<lparr> pay_id = newId, pay_groupId = groupId, pay_fromId = fromId,
                         pay_toId = toId, pay_amount = amount, pay_date = now \<rparr>;
          newPayments = payments st @ [newPayment]
      in st \<lparr> payments := newPayments \<rparr>)"

section \<open>Balance calculator\<close>

text \<open>
  The \<^verbatim>\<open>balances\<close> object: its own properties in insertion order, which is the order
  \<^verbatim>\<open>Object.entries\<close> walks for keys that are not array indices (UUID strings are
  not). Assigning to an existing key keeps its position, assigning to a new key appends.
\<close>

type_synonym balances = "(ident \<times> jsnum) list"

definition obj_set :: "ident \<Rightarrow> jsnum \<Rightarrow> balances \<Rightarrow> balances" where
  "obj_set k v obj =
     (if k \<in> fst ` set obj then map (\<lambda>(k', v'). if k' = k then (k', v) else (k', v')) obj
      else obj @ [(k, v)])"

text \<open>
  \<^verbatim>\<open>balances[k] += a\<close> and \<^verbatim>\<open>balances[k] -= a\<close>; a missing key reads as undefined, and
  undefined plus or minus a number is \<^verbatim>\<open>NaN\<close>.
\<close>

definition obj_add :: "ident \<Rightarrow> jsnum \<Rightarrow> balances \<Rightarrow> balances" where
  "obj_add k a obj =
     obj_set k (case map_of obj k of None \<Rightarrow> NaN | Some v \<Rightarrow> js_add v a) obj"

definition obj_sub :: "ident \<Rightarrow> jsnum \<Rightarrow> balances \<Rightarrow> balances" where
  "obj_sub k a obj =
     obj_set k (case map_of obj k of None \<Rightarrow> NaN | Some v \<Rightarrow> js_sub v a) obj"

definition initBalances :: "member list \<Rightarrow> balances" where
  "initBalances ms = foldl (\<lambda>b m. obj_set (member_id m) (Num 0) b) [] ms"

definition applyExpense :: "balances \<Rightarrow> expense \<Rightarrow> balances" where
  "applyExpense b e =
     foldl (\<lambda>b s. obj_sub (split_memberId s) (split_amount s) b)
           (obj_add (exp_paidBy e) (exp_amount e) b) (exp_splits e)"

definition applyPayment :: "balances \<Rightarrow> payment \<Rightarrow> balances" where
  "applyPayment b p =
     obj_sub (pay_toId p) (pay_amount p) (obj_add (pay_fromId p) (pay_amount p) b)"

definition calculateBalances :: "store \<Rightarrow> ident \<Rightarrow> balances" where
  "calculateBalances st groupId =
     (let groupExpenses = filter (\<lambda>e. exp_groupId e = groupId) (expenses st);
          groupPayments = filter (\<lambda>p. pay_groupId p = groupId) (payments st)
      in case find (\<lambda>g. group_id g = groupId) (groups st) of
           None \<Rightarrow> []
         | Some grp \<Rightarrow>
             foldl applyPayment
               (foldl applyExpense (initBalances (members grp)) groupExpenses)
               groupPayments)"

section \<open>Settlement planner\<close>

record entry =
  entry_memberId :: ident
  entry_amount :: jsnum

record settlement =
  s_from :: string
  s_fromId :: ident
  s_to :: string
  s_toId :: ident
  s_amount :: jsnum

text \<open>The \<^verbatim>\<open>Object.entries(balances).forEach\<close> that fills creditors and debtors.\<close>

definition classify :: "entry list \<times> entry list \<Rightarrow> ident \<times> jsnum \<Rightarrow> entry list \<times> entry list" where
  "classify acc kv =
     (case acc of (creditors, debtors) \<Rightarrow>
      case kv of (memberId, balance) \<Rightarrow>
        if js_gt balance tolerance then
          (creditors @ [\<lparr> entry_memberId = memberId, entry_amount = balance \<rparr>], debtors)
        else if js_lt balance (js_neg tolerance) then
          (creditors, debtors @ [\<lparr> entry_memberId = memberId, entry_amount = js_abs balance \<rparr>])
        else (creditors, debtors))"

text \<open>
  \<^verbatim>\<open>xs.sort((a, b) => b.amount - a.amount)\<close>. On the amounts of creditors and debtors
  (positive numbers and possibly \<^verbatim>\<open>Infinity\<close>) the comparator is consistent, so the
  result is the stable arrangement in descending order whatever algorithm the engine
  uses; a comparator result of \<^verbatim>\<open>NaN\<close> (two infinities) counts as 0. Insertion from the
  right is one such algorithm: an element goes behind exactly those it compares
  greater than 0 with.
\<close>

fun insertDesc :: "entry \<Rightarrow> entry list \<Rightarrow> entry list" where
  "insertDesc a [] = [a]"
| "insertDesc a (b # bs) =
     (if js_gt (js_sub (entry_amount b) (entry_amount a)) (Num 0) then b # insertDesc a bs
      else a # b # bs)"

definition sortDesc :: "entry list \<Rightarrow> entry list" where
  "sortDesc xs = foldr insertDesc xs []"

text \<open>
  One pass through the body of the \<^verbatim>\<open>while\<close> loop, for cursors inside both lists.
  \<^verbatim>\<open>group.members.find\<close> gives undefined for an id that no member has, and reading
  \<^verbatim>\<open>.name\<close> of undefined throws.
\<close>

definition settle_body ::
  "member list \<Rightarrow> entry list \<Rightarrow> entry list \<Rightarrow> nat \<Rightarrow> nat
     \<Rightarrow> js_error + (settlement \<times> entry list \<times> entry list \<times> nat \<times> nat)" where
  "settle_body ms creditors debtors i j =
     (let pay = js_min (entry_amount (creditors ! i)) (entry_amount (debtors ! j))
      in case find (\<lambda>m. member_id m = entry_memberId (debtors ! j)) ms of
           None \<Rightarrow> Inl TypeError
         | Some fromMember \<Rightarrow>
             (case find (\<lambda>m. member_id m = entry_memberId (creditors ! i)) ms of
                None \<Rightarrow> Inl TypeError
              | Some toMember \<Rightarrow>
                  (let s = \<lparr> s_from = member_name fromMember, s_fromId = member_id fromMember,
                             s_to = member_name toMember, s_toId = member_id toMember,
                             s_amount = pay \<rparr>;
                       creditors' = creditors[i := (creditors ! i)
                                       \<lparr> entry_amount := js_sub (entry_amount (creditors ! i)) pay \<rparr>];
                       debtors' = debtors[j := (debtors ! j)
                                       \<lparr> entry_amount := js_sub (entry_amount (debtors ! j)) pay \<rparr>];
                       i' = (if js_lt (entry_amount (creditors' ! i)) tolerance then Suc i else i);
                       j' = (if js_lt (entry_amount (debtors' ! j)) tolerance then Suc j else j)
                   in Inr (s, creditors', debtors', i', j'))))"

text \<open>
  The \<^verbatim>\<open>while\<close> loop. It need not end (two infinite amounts leave \<^verbatim>\<open>NaN\<close> behind and
  no cursor moves), so the result is an option: \<open>None\<close> is a loop that runs forever.
\<close>

partial_function (option) settle_loop ::
  "member list \<Rightarrow> entry list \<Rightarrow> entry list \<Rightarrow> nat \<Rightarrow> nat \<Rightarrow> settlement list
     \<Rightarrow> (js_error + settlement list) option" where
  "settle_loop ms creditors debtors i j settlements =
     (if i < length creditors \<and> j < length debtors then
        (case settle_body ms creditors debtors i j of
           Inl e \<Rightarrow> Some (Inl e)
         | Inr (s, creditors', debtors', i', j') \<Rightarrow>
             settle_loop ms creditors' debtors' i' j' (settlements @ [s]))
      else Some (Inr settlements))"

definition settleDebts :: "balances \<Rightarrow> group \<Rightarrow> (js_error + settlement list) option" where
  "settleDebts balances grp =
     (case foldl classify ([], []) balances of (creditors, debtors) \<Rightarrow>
        settle_loop (members grp) (sortDesc creditors) (sortDesc debtors) 0 0 [])"

section \<open>Form handlers of the presentation layer\<close>

text \<open>
  The ledger functions above check none of their arguments; what checking there is lives in
  the handlers of the two modal dialogs and in the settle button.

  \<^verbatim>\<open>String.prototype.trim\<close> removes white space and line terminators from both ends;
  of those, the following fit in a character of this model.
\<close>

definition js_whitespace :: "char \<Rightarrow> bool" where
  "js_whitespace c \<longleftrightarrow> c \<in> {CHR 0x09, CHR 0x0A, CHR 0x0B, CHR 0x0C, CHR 0x0D, CHR 0x20, CHR 0xA0}"

definition trim :: "string \<Rightarrow> string" where
  "trim s = rev (dropWhile js_whitespace (rev (dropWhile js_whitespace s)))"

text \<open>
  \<^verbatim>\<open>AddGroupModal\<close>: \<^verbatim>\<open>addMember\<close> on the member list and the text of the input box,
  and \<^verbatim>\<open>removeMember\<close>.
\<close>

definition addMember :: "string list \<Rightarrow> string \<Rightarrow> string list" where
  "addMember ms memberInput =
     (if trim memberInput \<noteq> [] \<and> trim memberInput \<notin> set ms then ms @ [trim memberInput]
      else ms)"

definition removeMember :: "string list \<Rightarrow> nat \<Rightarrow> string list" where
  "removeMember ms index = map snd (filter (\<lambda>(i, m). i \<noteq> index) (enumerate 0 ms))"

text \<open>
  \<^verbatim>\<open>AddGroupModal.handleSubmit\<close>: calls \<^verbatim>\<open>onAdd\<close> (that is \<open>addGroup\<close>) only behind
  its guard; otherwise it returns, and the store and the number of ids drawn stay as they
  are.
\<close>

definition AddGroupModal_handleSubmit ::
  "(nat \<Rightarrow> ident) \<Rightarrow> nat \<Rightarrow> timestamp \<Rightarrow> store \<Rightarrow> string \<Rightarrow> string list \<Rightarrow> store \<times> nat" where
  "AddGroupModal_handleSubmit uuid n now st name ms =
     (if trim name \<noteq> [] \<and> length ms \<ge> 2 then addGroup uuid n now st name ms else (st, n))"

text \<open>
  \<^verbatim>\<open>AddExpenseModal\<close>. The amount boxes are \<^verbatim>\<open><input type="number">\<close>, whose value
  is the empty string or the decimal text of a number: \<open>None\<close> is the empty string
  (falsy, \<^verbatim>\<open>parseFloat\<close> gives \<^verbatim>\<open>NaN\<close>), \<open>Some r\<close> a text that denotes the rational
  \<open>r\<close> (truthy, also for \<open>r = 0\<close>), which \<^verbatim>\<open>parseFloat\<close> rounds to binary64. The
  messages passed to \<^verbatim>\<open>setError\<close> are the constructors of \<open>form_error\<close>.
\<close>

type_synonym number_field = "rat option"

fun parseFloat :: "number_field \<Rightarrow> jsnum" where
  "parseFloat None = NaN"
| "parseFloat (Some r) = round_double r"

record custom_split =
  cs_memberId :: ident
  cs_amount :: number_field

datatype form_error = MissingFields | SplitMismatch jsnum jsnum | InvalidSplit

text \<open>\<^verbatim>\<open>x || 0\<close> on a number: \<^verbatim>\<open>NaN\<close> and zero are falsy.\<close>

definition js_or_zero :: "jsnum \<Rightarrow> jsnum" where
  "js_or_zero x = (if x = NaN \<or> x = Num 0 then Num 0 else x)"

text \<open>\<^verbatim>\<open>customSplits.reduce((sum, s) => sum + (parseFloat(s.amount) || 0), 0)\<close>\<close>

definition splitTotal :: "custom_split list \<Rightarrow> jsnum" where
  "splitTotal customSplits =
     foldl (\<lambda>sum s. js_add sum (js_or_zero (parseFloat (cs_amount s)))) (Num 0) customSplits"

text \<open>
  \<^verbatim>\<open>validateCustomSplits\<close>: \<open>None\<close> is the result \<^verbatim>\<open>true\<close>, \<open>Some err\<close> is
  \<^verbatim>\<open>setError(...); return false\<close>. With an empty amount box \<^verbatim>\<open>totalAmount\<close> is
  \<^verbatim>\<open>NaN\<close> and the first comparison is false.
\<close>

definition validateCustomSplits :: "number_field \<Rightarrow> custom_split list \<Rightarrow> form_error option" where
  "validateCustomSplits amount customSplits =
     (let totalAmount = parseFloat amount;
          splitTotal = splitTotal customSplits
      in if js_gt (js_abs (js_sub totalAmount splitTotal)) tolerance
         then Some (SplitMismatch splitTotal totalAmount)
         else if list_ex (\<lambda>s. cs_amount s = None \<or> js_le (parseFloat (cs_amount s)) (Num 0))
                   customSplits
         then Some InvalidSplit
         else None)"

text \<open>
  \<^verbatim>\<open>AddExpenseModal.handleSubmit\<close>. The result is the error it sets (if any) and what
  became of the store: unchanged when the handler returns early, otherwise the outcome of
  \<^verbatim>\<open>onAdd\<close> (that is \<open>addExpense\<close>).
\<close>

definition AddExpenseModal_handleSubmit ::
  "ident \<Rightarrow> timestamp \<Rightarrow> store \<Rightarrow> group \<Rightarrow> string \<Rightarrow> number_field \<Rightarrow> ident \<Rightarrow> string
     \<Rightarrow> custom_split list \<Rightarrow> form_error option \<times> (js_error + store)" where
  "AddExpenseModal_handleSubmit newId now st grp description amount paidBy splitType customSplits =
     (if trim description = [] \<or> amount = None \<or> paidBy = [] then (Some MissingFields, Inr st)
      else if splitType = ''custom'' \<and> validateCustomSplits amount customSplits \<noteq> None
      then (validateCustomSplits amount customSplits, Inr st)
      else
        (let finalSplits =
               (if splitType = ''custom''
                then map (\<lambda>s. \<lparr> split_memberId = cs_memberId s,
                                 split_amount = parseFloat (cs_amount s) \<rparr>)
                         customSplits
                else [])
         in (None, addExpense newId now st (group_id grp) description
                     (parseFloat amount) paidBy splitType finalSplits)))"

text \<open>
  \<^verbatim>\<open>GroupDetail.handleSettlement\<close>: the only caller of \<open>recordPayment\<close>; the flag is
  the answer of \<^verbatim>\<open>window.confirm\<close>.
\<close>

definition handleSettlement ::
  "bool \<Rightarrow> ident \<Rightarrow> timestamp \<Rightarrow> store \<Rightarrow> group \<Rightarrow> settlement \<Rightarrow> store" where
  "handleSettlement confirmed newId now st grp s =
     (if confirmed
      then recordPayment newId now st (group_id grp) (s_fromId s) (s_toId s) (s_amount s)
      else st)"

section \<open>Notions used in the statements\<close>


fun num_sum :: "jsnum list \<Rightarrow> rat option" where
  "num_sum [] = Some 0"
| "num_sum (Num x # vs) = map_option (\<lambda>s. x + s) (num_sum vs)"
| "num_sum (PInf # vs) = None"
| "num_sum (NInf # vs) = None"
| "num_sum (NaN # vs) = None"

definition exact_total :: "balances \<Rightarrow> rat option" where
  "exact_total bal = num_sum (map snd bal)"

text \<open>
  The rational a finite number denotes (0 stands in for the others, which the statements
  below exclude), and the finite numbers that are whole multiples of \<open>2 ^ - k\<close>.
\<close>

fun finite_val :: "jsnum \<Rightarrow> rat" where
  "finite_val (Num x) = x"
| "finite_val PInf = 0"
| "finite_val NInf = 0"
| "finite_val NaN = 0"

definition dyadic :: "nat \<Rightarrow> rat \<Rightarrow> bool" where
  "dyadic k x \<longleftrightarrow> of_int \<lfloor>x * 2 ^ k\<rfloor> = x * 2 ^ k"

fun on_grid :: "nat \<Rightarrow> jsnum \<Rightarrow> bool" where
  "on_grid k (Num x) = dyadic k x"
| "on_grid k PInf = False"
| "on_grid k NInf = False"
| "on_grid k NaN = False"






text \<open>
  A balance object whose values are finite, whole multiples of \<open>2 ^ - k\<close> and of
  magnitude at most \<open>2 ^ 53 * 2 ^ - k\<close>.
\<close>

definition grid_balances :: "nat \<Rightarrow> balances \<Rightarrow> bool" where
  "grid_balances k bal \<longleftrightarrow>
     (\<forall>kv\<in>set bal. on_grid k (snd kv) \<and> \<bar>finite_val (snd kv)\<bar> * 2 ^ k \<le> 2 ^ 53)"

text \<open>
  What a member receives and pays under a list of settlements, as exact sums; defined
  when the amounts concerned are finite.
\<close>

definition received :: "settlement list \<Rightarrow> ident \<Rightarrow> rat option" where
  "received ss m = num_sum (map s_amount (filter (\<lambda>s. s_toId s = m) ss))"

definition paid :: "settlement list \<Rightarrow> ident \<Rightarrow> rat option" where
  "paid ss m = num_sum (map s_amount (filter (\<lambda>s. s_fromId s = m) ss))"

text \<open>Creditors are the entries with balance above 0.01, debtors those below -0.01.\<close>

definition numCreditors :: "balances \<Rightarrow> nat" where
  "numCreditors bal = length (filter (\<lambda>(k, v). js_gt v tolerance) bal)"

definition numDebtors :: "balances \<Rightarrow> nat" where
  "numDebtors bal = length (filter (\<lambda>(k, v). js_lt v (js_neg tolerance)) bal)"

text \<open>A list without its repetitions, every element at its first place.\<close>

fun dedup :: "string list \<Rightarrow> string list" where
  "dedup [] = []"
| "dedup (x # xs) = x # dedup (filter (\<lambda>y. y \<noteq> x) xs)"

text \<open>Every id in the store.\<close>

definition used_ids :: "store \<Rightarrow> ident set" where
  "used_ids st =
     group_id ` set (groups st)
     \<union> (\<Union>g\<in>set (groups st). member_id ` set (members g))
     \<union> exp_id ` set (expenses st)
     \<union> pay_id ` set (payments st)"

section \<open>Notions used in the proofs\<close>

text \<open>The two lists the classification loop builds.\<close>

definition creditorsOf :: "balances \<Rightarrow> entry list" where
  "creditorsOf bal =
     map (\<lambda>(k, v). \<lparr> entry_memberId = k, entry_amount = v \<rparr>)
         (filter (\<lambda>(k, v). js_gt v tolerance) bal)"

definition debtorsOf :: "balances \<Rightarrow> entry list" where
  "debtorsOf bal =
     map (\<lambda>(k, v). \<lparr> entry_memberId = k, entry_amount = js_abs v \<rparr>)
         (filter (\<lambda>(k, v). \<not> js_gt v tolerance \<and> js_lt v (js_neg tolerance)) bal)"

text \<open>
  What every settlement the loop emits satisfies: an amount of at least the tolerance, a
  receiver among the creditor ids \<open>C\<close>, a sender among the debtor ids \<open>D\<close>, and the
  names and ids of members.
\<close>

definition settlement_ok :: "member list \<Rightarrow> ident set \<Rightarrow> ident set \<Rightarrow> settlement \<Rightarrow> bool" where
  "settlement_ok ms C D s \<longleftrightarrow>
     js_le tolerance (s_amount s) \<and> s_toId s \<in> C \<and> s_fromId s \<in> D
     \<and> (\<exists>m\<in>set ms. member_id m = s_fromId s \<and> member_name m = s_from s)
     \<and> (\<exists>m\<in>set ms. member_id m = s_toId s \<and> member_name m = s_to s)"

text \<open>Both cursors on \<^verbatim>\<open>NaN\<close>: from here the loop never leaves.\<close>

definition stuck :: "entry list \<Rightarrow> entry list \<Rightarrow> nat \<Rightarrow> nat \<Rightarrow> bool" where
  "stuck cs ds i j \<longleftrightarrow>
     (\<exists>c cr d dr. drop i cs = c # cr \<and> drop j ds = d # dr
        \<and> entry_amount c = NaN \<and> entry_amount d = NaN)"

text \<open>Every amount from the cursors on is at least the tolerance.\<close>

definition live :: "entry list \<Rightarrow> entry list \<Rightarrow> nat \<Rightarrow> nat \<Rightarrow> bool" where
  "live cs ds i j \<longleftrightarrow>
     (\<forall>e\<in>set (drop i cs). js_le tolerance (entry_amount e))
     \<and> (\<forall>e\<in>set (drop j ds). js_le tolerance (entry_amount e))"

text \<open>An upper bound on the iterations left.\<close>

definition pot :: "entry list \<Rightarrow> entry list \<Rightarrow> nat \<Rightarrow> nat \<Rightarrow> nat" where
  "pot cs ds i j =
     (if i < length cs \<and> j < length ds then (length cs - i) + (length ds - j) - 1 else 0)"


text \<open>Sums over the part of a list that the cursor has not passed, and over the output.\<close>

definition share :: "entry list \<Rightarrow> ident \<Rightarrow> rat" where
  "share xs m = sum_list (map (\<lambda>e. if entry_memberId e = m then finite_val (entry_amount e) else 0) xs)"

definition amounts :: "entry list \<Rightarrow> rat" where
  "amounts xs = sum_list (map (\<lambda>e. finite_val (entry_amount e)) xs)"

definition recv :: "settlement list \<Rightarrow> ident \<Rightarrow> rat" where
  "recv ss m = sum_list (map (\<lambda>s. if s_toId s = m then finite_val (s_amount s) else 0) ss)"

definition pd :: "settlement list \<Rightarrow> ident \<Rightarrow> rat" where
  "pd ss m = sum_list (map (\<lambda>s. if s_fromId s = m then finite_val (s_amount s) else 0) ss)"

definition grid_entries :: "nat \<Rightarrow> entry list \<Rightarrow> bool" where
  "grid_entries k xs \<longleftrightarrow>
     (\<forall>e\<in>set xs. on_grid k (entry_amount e) \<and> 0 < finite_val (entry_amount e)
        \<and> finite_val (entry_amount e) * 2 ^ k \<le> 2 ^ 53)"

section \<open>Example data\<close>

definition demo_group :: group where
  "demo_group = \<lparr> group_id = ''g'', group_name = ''Trip'',
       members = [\<lparr> member_name = ''Ann'', member_id = ''A'' \<rparr>,
                  \<lparr> member_name = ''Bob'', member_id = ''B'' \<rparr>,
                  \<lparr> member_name = ''Cy'', member_id = ''C'' \<rparr>],
       createdAt = ''t0'' \<rparr>"

definition demo_store :: store where
  "demo_store = \<lparr> groups = [demo_group], expenses = [], payments = [] \<rparr>"

definition demo_balances :: balances where
  "demo_balances = [(''A'', Num 60), (''B'', Num (- 30)), (''C'', Num (- 30))]"

definition demo_settlement :: settlement where
  "demo_settlement =
     \<lparr> s_from = ''Bob'', s_fromId = ''B'', s_to = ''Ann'', s_toId = ''A'', s_amount = Num 30 \<rparr>"

definition demo_pair :: group where
  "demo_pair = \<lparr> group_id = ''p'', group_name = ''Pair'',
      members = [\<lparr> member_name = ''Ann'', member_id = ''A'' \<rparr>,
                 \<lparr> member_name = ''Bob'', member_id = ''B'' \<rparr>],
      createdAt = ''t0'' \<rparr>"

definition pair_store :: store where
  "pair_store = \<lparr> groups = [demo_pair], expenses = [], payments = [] \<rparr>"

definition empty_store :: store where
  "empty_store = \<lparr> groups = [], expenses = [], payments = [] \<rparr>"

definition demo_uuid :: "nat \<Rightarrow> ident" where
  "demo_uuid n = replicate (Suc n) (CHR ''u'')"

text \<open>
  Three expenses of \<open>3 * 2 ^ 1022\<close> (about 1.35e308, a binary64 value), paid by Ann and
  split equally between Ann and Bob.
\<close>

definition huge_expense :: "ident \<Rightarrow> expense" where
  "huge_expense i = \<lparr> exp_id = i, exp_groupId = ''p'', exp_description = ''Yacht'',
      exp_amount = Num (3 * 2 ^ 1022), exp_paidBy = ''A'',
      exp_splits = [\<lparr> split_memberId = ''A'', split_amount = Num (3 * 2 ^ 1021) \<rparr>,
                    \<lparr> split_memberId = ''B'', split_amount = Num (3 * 2 ^ 1021) \<rparr>],
      exp_splitType = ''equal'', exp_date = ''t1'' \<rparr>"

definition huge_store :: "ident list \<Rightarrow> store" where
  "huge_store is = \<lparr> groups = [demo_pair], expenses = map huge_expense is, payments = [] \<rparr>"




definition mint_store :: store where
  "mint_store = \<lparr> groups = [demo_pair],
     expenses = [\<lparr> exp_id = ''e1'', exp_groupId = ''p'', exp_description = ''Mint'',
        exp_amount = Num (5764607523034235 / 288230376151711744), exp_paidBy = ''A'',
        exp_splits = [\<lparr> split_memberId = ''A'',
                         split_amount = Num (5764607523034235 / 1152921504606846976) \<rparr>,
                      \<lparr> split_memberId = ''B'',
                         split_amount = Num (5764607523034235 / 1152921504606846976) \<rparr>],
        exp_splitType = ''custom'', exp_date = ''t1'' \<rparr>],
     payments = [] \<rparr>"

definition demo_quad :: group where
  "demo_quad = \<lparr> group_id = ''q'', group_name = ''Flat'',
       members = [\<lparr> member_name = ''Ann'', member_id = ''A'' \<rparr>,
                  \<lparr> member_name = ''Bob'', member_id = ''B'' \<rparr>,
                  \<lparr> member_name = ''Cy'', member_id = ''C'' \<rparr>,
                  \<lparr> member_name = ''Dee'', member_id = ''D'' \<rparr>],
       createdAt = ''t0'' \<rparr>"

definition demo_quarters :: balances where
  "demo_quarters = [(''A'', Num (121 / 2)), (''B'', Num (- (121 / 4))), (''C'', Num (- (121 / 4)))]"

section \<open>Binary64 arithmetic\<close>

subsection \<open>Powers of two\<close>

lemma pow2_powi: "pow2 e = 2 powi e"
  by (simp add: pow2_def power_int_def inverse_eq_divide power_one_over)

lemma pow2_pos [simp]: "0 < pow2 e"
  by (simp add: pow2_powi)

lemma pow2_nonzero [simp]: "pow2 e \<noteq> 0"
  by (rule less_imp_neq [symmetric]) (rule pow2_pos)

lemma pow2_add: "pow2 (a + b) = pow2 a * pow2 b"
  by (simp add: pow2_powi power_int_add)

lemma pow2_mono: "a \<le> b \<Longrightarrow> pow2 a \<le> pow2 b"
  by (simp add: pow2_powi power_int_increasing)

lemma pow2_strict_mono: "a < b \<Longrightarrow> pow2 a < pow2 b"
  by (simp add: pow2_powi power_int_strict_increasing)

lemma pow2_0 [simp]: "pow2 0 = 1"
  by (simp add: pow2_def)

lemma pow2_nat: "0 \<le> e \<Longrightarrow> pow2 e = of_int (2 ^ nat e)"
  by (simp add: pow2_def)

lemma pow2_diff: "pow2 (a - b) = pow2 a / pow2 b"
  by (simp add: pow2_powi power_int_diff)

subsection \<open>The binary logarithm\<close>

lemma ilog2_bounds:
  assumes "0 < x"
  shows "pow2 (ilog2 x) \<le> x" and "x < pow2 (ilog2 x + 1)"
proof -
  obtain n d where q: "quotient_of x = (n, d)" by (cases "quotient_of x")
  then have x: "x = of_int n / of_int d" and d: "0 < d"
    by (simp_all add: quotient_of_div quotient_of_denom_pos)
  with assms have n: "0 < n" by (simp add: zero_less_divide_iff)
  define k where "k = bitlen n - bitlen d"
  from bitlen_bounds [OF n] have n1: "2 ^ nat (bitlen n - 1) \<le> n" and n2: "n < 2 ^ nat (bitlen n)"
    by simp_all
  from bitlen_bounds [OF d] have d1: "2 ^ nat (bitlen d - 1) \<le> d" and d2: "d < 2 ^ nat (bitlen d)"
    by simp_all
  have bn: "1 \<le> bitlen n" using n by (simp add: bitlen_alt_def)
  have bd: "1 \<le> bitlen d" using d by (simp add: bitlen_alt_def)
  have rn1: "pow2 (bitlen n - 1) \<le> of_int n"
    using n1 bn by (simp add: pow2_nat; metis of_int_le_iff of_int_numeral of_int_power)
  have rn2: "of_int n < pow2 (bitlen n)"
    using n2 bn by (simp add: pow2_nat; metis of_int_less_iff of_int_numeral of_int_power)
  have rd1: "pow2 (bitlen d - 1) \<le> of_int d"
    using d1 bd by (simp add: pow2_nat; metis of_int_le_iff of_int_numeral of_int_power)
  have rd2: "of_int d < pow2 (bitlen d)"
    using d2 bd by (simp add: pow2_nat; metis of_int_less_iff of_int_numeral of_int_power)
  have dpos: "(0::rat) < of_int d" using d by simp
  have up: "x < pow2 (k + 1)"
  proof -
    have "x < pow2 (bitlen n) / of_int d"
      unfolding x using rn2 dpos by (simp add: divide_strict_right_mono)
    also have "\<dots> \<le> pow2 (bitlen n) / pow2 (bitlen d - 1)"
      using rd1 dpos by (intro divide_left_mono) (simp_all add: less_imp_le)
    also have "\<dots> = pow2 (k + 1)"
      by (simp add: k_def pow2_diff [symmetric] algebra_simps)
    finally show ?thesis .
  qed
  have lo: "pow2 (k - 1) < x"
  proof -
    have "pow2 (k - 1) = pow2 (bitlen n - 1) / pow2 (bitlen d)"
      by (simp add: k_def pow2_diff [symmetric] algebra_simps)
    also have "\<dots> < pow2 (bitlen n - 1) / of_int d"
      using rd2 dpos by (simp add: frac_less2)
    also have "\<dots> \<le> x"
      unfolding x using rn1 dpos by (simp add: divide_right_mono)
    finally show ?thesis .
  qed
  have il: "ilog2 x = (if pow2 k \<le> x then k else k - 1)"
    by (simp add: ilog2_def q k_def Let_def)
  show "pow2 (ilog2 x) \<le> x" using lo by (simp add: il less_imp_le)
  show "x < pow2 (ilog2 x + 1)" using up by (simp add: il)
qed

lemma ilog2_less: "0 < x \<Longrightarrow> x < pow2 k \<Longrightarrow> ilog2 x < k"
proof (rule ccontr)
  assume x: "0 < x" "x < pow2 k" and "\<not> ilog2 x < k"
  then have "pow2 k \<le> pow2 (ilog2 x)" by (simp add: pow2_mono)
  also have "\<dots> \<le> x" using x(1) by (rule ilog2_bounds)
  finally show False using x(2) by simp
qed

lemma ilog2_ge: "0 < x \<Longrightarrow> pow2 k \<le> x \<Longrightarrow> k \<le> ilog2 x"
proof (rule ccontr)
  assume x: "0 < x" "pow2 k \<le> x" and "\<not> k \<le> ilog2 x"
  then have "ilog2 x + 1 \<le> k" by simp
  then have "pow2 (ilog2 x + 1) \<le> pow2 k" by (rule pow2_mono)
  with ilog2_bounds(2) [OF x(1)] x(2) show False by simp
qed

subsection \<open>Rounding\<close>

lemma round_half_even_int [simp]: "round_half_even (of_int k) = k"
  by (simp add: round_half_even_def)

lemma round_half_even_ge_floor: "\<lfloor>x\<rfloor> \<le> round_half_even x"
  by (simp add: round_half_even_def Let_def)

lemma round_half_even_nonneg: "0 \<le> x \<Longrightarrow> 0 \<le> round_half_even x"
  using round_half_even_ge_floor [of x] by (simp add: order_trans [of 0 "\<lfloor>x\<rfloor>"])

lemma round_double_not_NaN [simp]: "round_double x \<noteq> NaN"
  by (simp add: round_double_def Let_def)

lemma round_double_0 [simp]: "round_double 0 = Num 0"
  by (simp add: round_double_def)

lemma round_double_nonneg:
  assumes "0 \<le> x"
  shows "round_double x = PInf \<or> (\<exists>r. round_double x = Num r \<and> 0 \<le> r)"
proof (cases "x = 0")
  case True
  then show ?thesis by simp
next
  case False
  with assms have x: "0 < x" by simp
  define e where "e = max (ilog2 x - 52) (- 1074)"
  define y where "y = of_int (round_half_even (x / pow2 e)) * pow2 e"
  have "0 \<le> x / pow2 e" using x by (simp add: less_imp_le)
  then have "0 \<le> round_half_even (x / pow2 e)" by (rule round_half_even_nonneg)
  then have "0 \<le> y" by (simp add: y_def less_imp_le)
  then show ?thesis
    using x by (simp add: round_double_def Let_def e_def [symmetric] y_def [symmetric])
qed

lemma round_double_neg: "round_double (- x) = js_neg (round_double x)"
  by (simp add: round_double_def Let_def)

lemma round_double_nonpos:
  assumes "x \<le> 0"
  shows "round_double x = NInf \<or> (\<exists>r. round_double x = Num r \<and> r \<le> 0)"
proof -
  from assms have "0 \<le> - x" by simp
  from round_double_nonneg [OF this] show ?thesis
    unfolding round_double_neg by (cases "round_double x") auto
qed

text \<open>Numbers with at most 53 significant bits and an exponent in range are not changed.\<close>

lemma round_double_dyadic_pos:
  assumes m: "0 < m" "m < 2 ^ 53" and e: "- 1074 \<le> e" "e \<le> 971"
  shows "round_double (of_int m * pow2 e) = Num (of_int m * pow2 e)"
proof -
  define x :: rat where "x = of_int m * pow2 e"
  have x: "0 < x" using m(1) by (simp add: x_def)
  have "of_int m < (pow2 53 :: rat)"
    using m(2) by (simp add: pow2_nat; metis of_int_less_iff of_int_numeral of_int_power)
  then have "x < pow2 53 * pow2 e" by (simp add: x_def)
  then have xl: "x < pow2 (53 + e)" by (simp add: pow2_add)
  then have "ilog2 x < 53 + e" using x by (intro ilog2_less)
  then have l: "ilog2 x - 52 \<le> e" by simp
  define E where "E = max (ilog2 x - 52) (- 1074)"
  have E: "E \<le> e" using l e(1) x by (simp add: E_def)
  have "x / pow2 E = of_int m * pow2 (e - E)"
    by (simp add: x_def pow2_diff)
  also have "\<dots> = of_int (m * 2 ^ nat (e - E))"
    using E by (simp add: pow2_nat)
  finally have q: "x / pow2 E = of_int (m * 2 ^ nat (e - E))" .
  have "x = (x / pow2 E) * pow2 E" by simp
  then have y: "of_int (round_half_even (x / pow2 E)) * pow2 E = x"
    unfolding q round_half_even_int by simp
  have "pow2 (53 + e) \<le> pow2 1024" using e(2) by (intro pow2_mono) simp
  with xl have "x < pow2 1024" by simp
  then show ?thesis
    using x by (simp add: round_double_def Let_def E_def [symmetric] y x_def [symmetric])
qed

lemma round_double_int:
  assumes "\<bar>n\<bar> \<le> 2 ^ 53"
  shows "round_double (of_int n) = Num (of_int n)"
proof -
  have pos: "round_double (of_int k) = Num (of_int k)" if k: "0 < k" "k \<le> 2 ^ 53" for k :: int
  proof (cases "k = 2 ^ 53")
    case True
    have "round_double (of_int (2 ^ 52) * pow2 1) = Num (of_int (2 ^ 52) * pow2 1)"
      by (rule round_double_dyadic_pos) simp_all
    then show ?thesis by (simp add: True pow2_def)
  next
    case False
    with k have "k < 2 ^ 53" by simp
    from round_double_dyadic_pos [OF k(1) this, of 0] show ?thesis by simp
  qed
  consider "n = 0" | "0 < n" | "n < 0" by linarith
  then show ?thesis
  proof cases
    case 1
    then show ?thesis by simp
  next
    case 2
    with assms show ?thesis by (intro pos) simp_all
  next
    case 3
    with assms have "round_double (of_int (- n)) = Num (of_int (- n))" by (intro pos) simp_all
    then have "js_neg (round_double (of_int n)) = Num (- of_int n)"
      by (simp add: round_double_neg)
    then show ?thesis by (cases "round_double (of_int n)") simp_all
  qed
qed

lemma round_double_overflow:
  assumes "pow2 1024 \<le> x"
  shows "round_double x = PInf"
proof -
  have x: "0 < x" using assms pow2_pos [of 1024] by linarith
  define L where "L = ilog2 x"
  have L: "1024 \<le> L" unfolding L_def using x assms by (intro ilog2_ge) simp_all
  define E where "E = max (L - 52) (- 1074)"
  have E: "E = L - 52" using L by (simp add: E_def)
  have "pow2 L \<le> x" unfolding L_def using x ilog2_bounds(1) [of x] by simp
  then have "pow2 L / pow2 E \<le> x / pow2 E" by (simp add: divide_right_mono less_imp_le)
  then have "pow2 52 \<le> x / pow2 E" by (simp add: E pow2_diff [symmetric])
  then have "of_int (2 ^ 52) \<le> x / pow2 E" by (simp add: pow2_nat)
  then have "2 ^ 52 \<le> \<lfloor>x / pow2 E\<rfloor>" by (simp add: le_floor_iff del: of_int_power)
  with round_half_even_ge_floor [of "x / pow2 E"]
  have "2 ^ 52 \<le> round_half_even (x / pow2 E)" by linarith
  then have "(of_int (2 ^ 52) :: rat) \<le> of_int (round_half_even (x / pow2 E))"
    by (simp only: of_int_le_iff)
  then have "pow2 52 \<le> of_int (round_half_even (x / pow2 E))" by (simp add: pow2_nat)
  then have "pow2 52 * pow2 E \<le> of_int (round_half_even (x / pow2 E)) * pow2 E"
    by (simp add: mult_right_mono less_imp_le)
  then have "pow2 L \<le> of_int (round_half_even (x / pow2 E)) * pow2 E"
    by (simp add: E pow2_add [symmetric])
  moreover have "pow2 1024 \<le> pow2 L" using L by (rule pow2_mono)
  ultimately have "pow2 1024 \<le> of_int (round_half_even (x / pow2 E)) * pow2 E"
    by simp
  then show ?thesis
    using x by (simp add: round_double_def Let_def E_def [symmetric] L_def [symmetric])
qed

subsection \<open>Evaluating a rounding\<close>

lemma round_half_even_near:
  assumes "\<bar>x - of_int m\<bar> < 1 / 2"
  shows "round_half_even x = m"
proof -
  from assms have lo: "of_int m - 1 / 2 < x" and hi: "x < of_int m + 1 / 2"
    by linarith+
  show ?thesis
  proof (cases "of_int m \<le> x")
    case True
    with hi have f: "\<lfloor>x\<rfloor> = m" by (intro floor_unique) simp_all
    with hi show ?thesis by (simp add: round_half_even_def Let_def)
  next
    case False
    with lo have f: "\<lfloor>x\<rfloor> = m - 1" by (intro floor_unique) simp_all
    with lo show ?thesis by (simp add: round_half_even_def Let_def)
  qed
qed

lemma round_half_even_tie:
  assumes "\<bar>x - of_int m\<bar> = 1 / 2" and "even m"
  shows "round_half_even x = m"
proof -
  from assms(1) consider "x = of_int m + 1 / 2" | "x = of_int m - 1 / 2"
    by (auto simp: abs_if split: if_splits)
  then show ?thesis
  proof cases
    case 1
    then have f: "\<lfloor>x\<rfloor> = m" by (intro floor_unique) simp_all
    with 1 assms(2) show ?thesis by (simp add: round_half_even_def Let_def)
  next
    case 2
    then have f: "\<lfloor>x\<rfloor> = m - 1" by (intro floor_unique) simp_all
    with 2 assms(2) show ?thesis by (simp add: round_half_even_def Let_def)
  qed
qed

text \<open>
  A certificate for one rounding: \<open>x\<close> in the binade of exponent \<open>e + 52\<close> and nearer to
  \<open>m * 2 ^ e\<close> than half a unit, or half a unit away from an even \<open>m\<close>.
\<close>

lemma round_double_cert:
  assumes lo: "pow2 (e + 52) \<le> x" and hi: "x < pow2 (e + 53)"
    and e: "- 1074 \<le> e"
    and near: "\<bar>x / pow2 e - of_int m\<bar> < 1 / 2 \<or> (\<bar>x / pow2 e - of_int m\<bar> = 1 / 2 \<and> even m)"
    and fin: "of_int m * pow2 e < pow2 1024"
  shows "round_double x = Num (of_int m * pow2 e)"
proof -
  have x: "0 < x" using lo pow2_pos [of "e + 52"] by linarith
  have "e + 52 \<le> ilog2 x" using x lo by (rule ilog2_ge)
  moreover have "ilog2 x < e + 53" using x hi by (rule ilog2_less)
  ultimately have l: "ilog2 x = e + 52" by simp
  have ex: "max (ilog2 x - 52) (- 1074) = e" using e by (simp add: l)
  have r: "round_half_even (x / pow2 e) = m"
    using near round_half_even_near round_half_even_tie by blast
  from x have ax: "\<bar>x\<bar> = x" by simp
  show ?thesis
    unfolding round_double_def ax ex Let_def r using x fin by simp
qed

lemma round_double_cert_neg:
  assumes "pow2 (e + 52) \<le> x" and "x < pow2 (e + 53)"
    and "- 1074 \<le> e"
    and "\<bar>x / pow2 e - of_int m\<bar> < 1 / 2 \<or> (\<bar>x / pow2 e - of_int m\<bar> = 1 / 2 \<and> even m)"
    and "of_int m * pow2 e < pow2 1024"
  shows "round_double (- x) = Num (- (of_int m * pow2 e))"
  using round_double_cert [OF assms] by (simp add: round_double_neg)

lemma tolerance_val: "tolerance = Num (5764607523034235 / 576460752303423488)"
  unfolding tolerance_def
  using round_double_cert [where x = "1 / 100" and e = "- 59" and m = 5764607523034235]
  by (simp add: pow2_def)

lemma tolerance_bounds: "\<exists>t. tolerance = Num t \<and> 0 < t \<and> t < 1"
  unfolding tolerance_val by (intro exI [of _ "5764607523034235 / 576460752303423488"]) simp

section \<open>The settlement loop\<close>

subsection \<open>Unfolding the loop\<close>

lemma settle_loop_stop:
  "\<not> (i < length cs \<and> j < length ds) \<Longrightarrow> settle_loop ms cs ds i j out = Some (Inr out)"
  by (subst settle_loop.simps) auto

lemma settle_loop_step:
  "i < length cs \<Longrightarrow> j < length ds \<Longrightarrow> settle_body ms cs ds i j = Inr (s, cs', ds', i', j')
     \<Longrightarrow> settle_loop ms cs ds i j out = settle_loop ms cs' ds' i' j' (out @ [s])"
  by (subst settle_loop.simps) simp

lemma settle_loop_throw:
  "i < length cs \<Longrightarrow> j < length ds \<Longrightarrow> settle_body ms cs ds i j = Inl e
     \<Longrightarrow> settle_loop ms cs ds i j out = Some (Inl e)"
  by (subst settle_loop.simps) simp

text \<open>
  Partial correctness: an invariant \<open>I\<close> that every iteration keeps, or leaves for a set
  \<open>D\<close> of states that is never left, holds when the loop returns.
\<close>

lemma settle_loop_rule:
  assumes run: "settle_loop ms cs ds i j out = Some (Inr ss)"
    and init: "I cs ds i j out"
    and step: "\<And>cs ds i j out s cs' ds' i' j'.
        I cs ds i j out \<Longrightarrow> i < length cs \<Longrightarrow> j < length ds \<Longrightarrow>
        settle_body ms cs ds i j = Inr (s, cs', ds', i', j') \<Longrightarrow>
        I cs' ds' i' j' (out @ [s]) \<or> D cs' ds' i' j'"
    and doom: "\<And>cs ds i j s cs' ds' i' j'. D cs ds i j \<Longrightarrow>
        i < length cs \<and> j < length ds
        \<and> (settle_body ms cs ds i j = Inr (s, cs', ds', i', j') \<longrightarrow> D cs' ds' i' j')"
  shows "\<exists>cs' ds' i' j'. I cs' ds' i' j' ss \<and> \<not> (i' < length cs' \<and> j' < length ds')"
proof -
  define P where "P = (\<lambda>ms' (cs::entry list) (ds::entry list) (i::nat) (j::nat)
      (out::settlement list) (y::js_error + settlement list).
      ms' = ms \<longrightarrow> (\<forall>ss. y = Inr ss \<longrightarrow> \<not> D cs ds i j
         \<and> (I cs ds i j out \<longrightarrow>
             (\<exists>cs' ds' i' j'. I cs' ds' i' j' ss \<and> \<not> (i' < length cs' \<and> j' < length ds')))))"
  have "P ms cs ds i j out (Inr ss)"
  proof (rule settle_loop.raw_induct [where P = P, OF _ run])
    fix f :: "member list \<Rightarrow> entry list \<Rightarrow> entry list \<Rightarrow> nat \<Rightarrow> nat \<Rightarrow> settlement list
        \<Rightarrow> (js_error + settlement list) option"
    fix ms' cs ds i j out y
    assume IH: "\<And>ms cs ds i j out y. f ms cs ds i j out = Some y \<Longrightarrow> P ms cs ds i j out y"
    assume eq: "(if i < length cs \<and> j < length ds
         then case settle_body ms' cs ds i j of Inl e \<Rightarrow> Some (Inl e)
              | Inr (s, cs', ds', i', j') \<Rightarrow> f ms' cs' ds' i' j' (out @ [s])
         else Some (Inr out)) = Some y"
    show "P ms' cs ds i j out y"
      unfolding P_def
    proof (intro impI allI)
      fix ss
      assume m: "ms' = ms" and y: "y = Inr ss"
      show "\<not> D cs ds i j
         \<and> (I cs ds i j out \<longrightarrow>
             (\<exists>cs' ds' i' j'. I cs' ds' i' j' ss \<and> \<not> (i' < length cs' \<and> j' < length ds')))"
      proof (cases "i < length cs \<and> j < length ds")
        case False
        with eq y have "out = ss" by simp
        with False doom [of cs ds i j] show ?thesis by blast
      next
        case True
        then have ij: "i < length cs" "j < length ds" by simp_all
        show ?thesis
        proof (cases "settle_body ms cs ds i j")
          case (Inl e)
          with eq True y m show ?thesis by simp
        next
          case (Inr r)
          then obtain s cs' ds' i' j'
            where r: "settle_body ms cs ds i j = Inr (s, cs', ds', i', j')"
            by (cases r) auto
          from eq True r m y have "f ms cs' ds' i' j' (out @ [s]) = Some (Inr ss)" by simp
          from IH [OF this] have p: "\<not> D cs' ds' i' j'"
            and q: "I cs' ds' i' j' (out @ [s]) \<Longrightarrow>
              \<exists>cs' ds' i' j'. I cs' ds' i' j' ss \<and> \<not> (i' < length cs' \<and> j' < length ds')"
            unfolding P_def by blast+
          have nd: "\<not> D cs ds i j"
            using doom [of cs ds i j s cs' ds' i' j'] r p by blast
          have "\<exists>cs' ds' i' j'. I cs' ds' i' j' ss \<and> \<not> (i' < length cs' \<and> j' < length ds')"
            if "I cs ds i j out"
            using step [OF that ij r] p q by blast
          with nd show ?thesis by blast
        qed
      qed
    qed
  qed
  with init show ?thesis unfolding P_def by blast
qed

subsection \<open>Comparisons with the tolerance\<close>

lemma tolerance_Num: obtains t where "tolerance = Num t" "0 < t" "t < 1"
  using tolerance_bounds by blast

lemma js_le_tolerance_iff:
  "js_le tolerance v \<longleftrightarrow> v = PInf \<or> (\<exists>r t. v = Num r \<and> tolerance = Num t \<and> t \<le> r)"
proof -
  obtain t where t: "tolerance = Num t" "0 < t" "t < 1" by (rule tolerance_Num)
  show ?thesis unfolding t(1) by (cases v) auto
qed

lemma js_le_tolerance_pos: "js_le tolerance v \<Longrightarrow> js_gt v (Num 0)"
proof -
  obtain t where t: "tolerance = Num t" "0 < t" "t < 1" by (rule tolerance_Num)
  show "js_le tolerance v \<Longrightarrow> js_gt v (Num 0)"
    unfolding t(1) using t(2) by (cases v) (auto simp: js_gt_def)
qed

lemma js_gt_tolerance_le: "js_gt v tolerance \<Longrightarrow> js_le tolerance v"
proof -
  obtain t where t: "tolerance = Num t" "0 < t" "t < 1" by (rule tolerance_Num)
  show "js_gt v tolerance \<Longrightarrow> js_le tolerance v"
    unfolding t(1) by (cases v) (auto simp: js_gt_def)
qed

lemma js_lt_neg_tolerance_abs: "js_lt v (js_neg tolerance) \<Longrightarrow> js_le tolerance (js_abs v)"
proof -
  obtain t where t: "tolerance = Num t" "0 < t" "t < 1" by (rule tolerance_Num)
  show "js_lt v (js_neg tolerance) \<Longrightarrow> js_le tolerance (js_abs v)"
    unfolding t(1) using t(2) by (cases v) auto
qed

lemma js_lt_or_le_tolerance: "v \<noteq> NaN \<Longrightarrow> js_lt v tolerance \<or> js_le tolerance v"
proof -
  obtain t where t: "tolerance = Num t" "0 < t" "t < 1" by (rule tolerance_Num)
  show "v \<noteq> NaN \<Longrightarrow> js_lt v tolerance \<or> js_le tolerance v"
    unfolding t(1) by (cases v) auto
qed

lemma round_double_lt_or_le_tolerance:
  "js_lt (round_double x) tolerance \<or> js_le tolerance (round_double x)"
  by (rule js_lt_or_le_tolerance) simp

lemma js_lt_zero_tolerance: "js_lt (Num 0) tolerance"
proof -
  obtain t where t: "tolerance = Num t" "0 < t" "t < 1" by (rule tolerance_Num)
  show ?thesis unfolding t(1) using t(2) by simp
qed

text \<open>One payment between two amounts that are both at least the tolerance.\<close>

lemma pay_step:
  assumes a: "js_le tolerance a" and b: "js_le tolerance b"
  shows "js_le tolerance (js_min a b)"
    and "(js_sub a (js_min a b) = NaN \<and> js_sub b (js_min a b) = NaN)
       \<or> ((js_lt (js_sub a (js_min a b)) tolerance \<or> js_le tolerance (js_sub a (js_min a b)))
          \<and> (js_lt (js_sub b (js_min a b)) tolerance \<or> js_le tolerance (js_sub b (js_min a b)))
          \<and> (js_lt (js_sub a (js_min a b)) tolerance \<or> js_lt (js_sub b (js_min a b)) tolerance))"
proof -
  from a b show "js_le tolerance (js_min a b)"
    by (cases a; cases b) (auto simp: js_le_tolerance_iff)
  from a consider "a = PInf" | x where "a = Num x" by (auto simp: js_le_tolerance_iff)
  then show "(js_sub a (js_min a b) = NaN \<and> js_sub b (js_min a b) = NaN)
       \<or> ((js_lt (js_sub a (js_min a b)) tolerance \<or> js_le tolerance (js_sub a (js_min a b)))
          \<and> (js_lt (js_sub b (js_min a b)) tolerance \<or> js_le tolerance (js_sub b (js_min a b)))
          \<and> (js_lt (js_sub a (js_min a b)) tolerance \<or> js_lt (js_sub b (js_min a b)) tolerance))"
  proof cases
    case 1
    from b consider "b = PInf" | y where "b = Num y" by (auto simp: js_le_tolerance_iff)
    then show ?thesis
    proof cases
      case 1
      with \<open>a = PInf\<close> show ?thesis by (simp add: js_sub_def)
    next
      case 2
      with \<open>a = PInf\<close> a show ?thesis
        by (simp add: js_sub_def js_lt_zero_tolerance)
    qed
  next
    case 2
    from b consider "b = PInf" | y where "b = Num y" by (auto simp: js_le_tolerance_iff)
    then show ?thesis
    proof cases
      case 1
      with \<open>a = Num x\<close> b show ?thesis
        by (simp add: js_sub_def js_lt_zero_tolerance)
    next
      case 2
      show ?thesis
      proof (cases "y < x")
        case True
        with 2 \<open>a = Num x\<close> show ?thesis
          using round_double_lt_or_le_tolerance [of "x - y"]
          by (simp add: js_sub_def js_lt_zero_tolerance)
      next
        case False
        with 2 \<open>a = Num x\<close> show ?thesis
          using round_double_lt_or_le_tolerance [of "y - x"]
          by (simp add: js_sub_def js_lt_zero_tolerance)
      qed
    qed
  qed
qed

subsection \<open>One iteration\<close>

text \<open>One iteration, seen on the parts of the two lists from the cursors on.\<close>

lemma settle_body_Inr:
  assumes ij: "i < length cs" "j < length ds"
    and body: "settle_body ms cs ds i j = Inr (s, cs', ds', i', j')"
  shows "\<exists>c cr d dr fromM toM.
      drop i cs = c # cr \<and> drop j ds = d # dr
      \<and> fromM \<in> set ms \<and> member_id fromM = entry_memberId d
      \<and> toM \<in> set ms \<and> member_id toM = entry_memberId c
      \<and> s = \<lparr> s_from = member_name fromM, s_fromId = member_id fromM,
               s_to = member_name toM, s_toId = member_id toM,
               s_amount = js_min (entry_amount c) (entry_amount d) \<rparr>
      \<and> drop i' cs' =
          (if js_lt (js_sub (entry_amount c) (js_min (entry_amount c) (entry_amount d))) tolerance
           then cr
           else c \<lparr> entry_amount :=
                    js_sub (entry_amount c) (js_min (entry_amount c) (entry_amount d)) \<rparr> # cr)
      \<and> drop j' ds' =
          (if js_lt (js_sub (entry_amount d) (js_min (entry_amount c) (entry_amount d))) tolerance
           then dr
           else d \<lparr> entry_amount :=
                    js_sub (entry_amount d) (js_min (entry_amount c) (entry_amount d)) \<rparr> # dr)
      \<and> length cs' = length cs \<and> length ds' = length ds
      \<and> map entry_memberId cs' = map entry_memberId cs
      \<and> map entry_memberId ds' = map entry_memberId ds
      \<and> i' = (if js_lt (js_sub (entry_amount c) (js_min (entry_amount c) (entry_amount d))) tolerance
              then Suc i else i)
      \<and> j' = (if js_lt (js_sub (entry_amount d) (js_min (entry_amount c) (entry_amount d))) tolerance
              then Suc j else j)"
proof -
  let ?c = "cs ! i" and ?d = "ds ! j"
  let ?p = "js_min (entry_amount ?c) (entry_amount ?d)"
  let ?a = "js_sub (entry_amount ?c) ?p" and ?b = "js_sub (entry_amount ?d) ?p"
  from body obtain fromM toM where
    f: "find (\<lambda>m. member_id m = entry_memberId ?d) ms = Some fromM"
    and t: "find (\<lambda>m. member_id m = entry_memberId ?c) ms = Some toM"
    by (auto simp: settle_body_def Let_def split: option.splits)
  from f have fm: "fromM \<in> set ms" "member_id fromM = entry_memberId ?d"
    by (auto simp: find_Some_iff)
  from t have tm: "toM \<in> set ms" "member_id toM = entry_memberId ?c"
    by (auto simp: find_Some_iff)
  have dc: "drop i cs = ?c # drop (Suc i) cs" and dd: "drop j ds = ?d # drop (Suc j) ds"
    using ij by (simp_all add: Cons_nth_drop_Suc)
  from body f t have s: "s = \<lparr> s_from = member_name fromM, s_fromId = member_id fromM,
               s_to = member_name toM, s_toId = member_id toM, s_amount = ?p \<rparr>"
    and cs': "cs' = cs[i := ?c \<lparr> entry_amount := ?a \<rparr>]"
    and ds': "ds' = ds[j := ?d \<lparr> entry_amount := ?b \<rparr>]"
    and i': "i' = (if js_lt ?a tolerance then Suc i else i)"
    and j': "j' = (if js_lt ?b tolerance then Suc j else j)"
    using ij by (simp_all add: settle_body_def Let_def)
  have dci: "drop i' cs' = (if js_lt ?a tolerance then drop (Suc i) cs
                       else ?c \<lparr> entry_amount := ?a \<rparr> # drop (Suc i) cs)"
  proof (cases "js_lt ?a tolerance")
    case True
    with ij show ?thesis unfolding cs' i' by (simp only: if_True drop_update_cancel lessI)
  next
    case False
    with ij show ?thesis unfolding cs' i'
      by (simp only: if_False drop_update_swap [OF order_refl] dc diff_self_eq_0 list_update_code)
  qed
  have ddj: "drop j' ds' = (if js_lt ?b tolerance then drop (Suc j) ds
                       else ?d \<lparr> entry_amount := ?b \<rparr> # drop (Suc j) ds)"
  proof (cases "js_lt ?b tolerance")
    case True
    with ij show ?thesis unfolding ds' j' by (simp only: if_True drop_update_cancel lessI)
  next
    case False
    with ij show ?thesis unfolding ds' j'
      by (simp only: if_False drop_update_swap [OF order_refl] dd diff_self_eq_0 list_update_code)
  qed
  have ids: "map entry_memberId cs' = map entry_memberId cs" "map entry_memberId ds' = map entry_memberId ds"
    using ij by (simp_all add: cs' ds' map_update list_update_same_conv)
  show ?thesis
    using dc dd fm tm s dci ddj ids i' j'
    by (intro exI [of _ ?c] exI [of _ "drop (Suc i) cs"] exI [of _ ?d]
          exI [of _ "drop (Suc j) ds"] exI [of _ fromM] exI [of _ toM]) (simp add: cs' ds')
qed

lemma settle_body_total:
  assumes ij: "i < length cs" "j < length ds"
    and c: "entry_memberId ` set cs \<subseteq> member_id ` set ms"
    and d: "entry_memberId ` set ds \<subseteq> member_id ` set ms"
  shows "\<exists>s cs' ds' i' j'. settle_body ms cs ds i j = Inr (s, cs', ds', i', j')"
proof -
  from ij c have "entry_memberId (cs ! i) \<in> member_id ` set ms"
    using nth_mem by blast
  then obtain toM where t: "find (\<lambda>m. member_id m = entry_memberId (cs ! i)) ms = Some toM"
    by (cases "find (\<lambda>m. member_id m = entry_memberId (cs ! i)) ms")
       (auto simp: find_None_iff)
  from ij d have "entry_memberId (ds ! j) \<in> member_id ` set ms"
    using nth_mem by blast
  then obtain fromM where f: "find (\<lambda>m. member_id m = entry_memberId (ds ! j)) ms = Some fromM"
    by (cases "find (\<lambda>m. member_id m = entry_memberId (ds ! j)) ms")
       (auto simp: find_None_iff)
  show ?thesis
    by (simp add: settle_body_def Let_def t f)
qed

text \<open>Two cursors on \<^verbatim>\<open>NaN\<close> stay where they are.\<close>

lemma stuck_step:
  assumes st: "stuck cs ds i j"
  shows "i < length cs \<and> j < length ds
     \<and> (settle_body ms cs ds i j = Inr (s, cs', ds', i', j') \<longrightarrow> stuck cs' ds' i' j')"
proof -
  from st obtain c cr d dr where dc: "drop i cs = c # cr" and dd: "drop j ds = d # dr"
    and nan: "entry_amount c = NaN" "entry_amount d = NaN"
    unfolding stuck_def by blast
  have ij: "i < length cs" "j < length ds"
  proof -
    show "i < length cs" using dc by (cases "i < length cs") simp_all
    show "j < length ds" using dd by (cases "j < length ds") simp_all
  qed
  have "stuck cs' ds' i' j'" if body: "settle_body ms cs ds i j = Inr (s, cs', ds', i', j')"
  proof -
    from settle_body_Inr [OF ij body] obtain c0 cr0 d0 dr0 where
      dc0: "drop i cs = c0 # cr0" and dd0: "drop j ds = d0 # dr0"
      and dci: "drop i' cs' =
          (if js_lt (js_sub (entry_amount c0) (js_min (entry_amount c0) (entry_amount d0))) tolerance
           then cr0
           else c0 \<lparr> entry_amount :=
                    js_sub (entry_amount c0) (js_min (entry_amount c0) (entry_amount d0)) \<rparr> # cr0)"
      and ddj: "drop j' ds' =
          (if js_lt (js_sub (entry_amount d0) (js_min (entry_amount c0) (entry_amount d0))) tolerance
           then dr0
           else d0 \<lparr> entry_amount :=
                    js_sub (entry_amount d0) (js_min (entry_amount c0) (entry_amount d0)) \<rparr> # dr0)"
      by blast
    from dc dc0 dd dd0 have e: "c0 = c" "d0 = d" by simp_all
    from dci ddj show ?thesis
      unfolding stuck_def e nan by (simp add: js_sub_def)
  qed
  with ij show ?thesis by blast
qed

lemma live_step:
  assumes lv: "live cs ds i j" and ij: "i < length cs" "j < length ds"
    and body: "settle_body ms cs ds i j = Inr (s, cs', ds', i', j')"
  shows "js_le tolerance (s_amount s)
     \<and> (stuck cs' ds' i' j' \<or> (live cs' ds' i' j' \<and> i + j < i' + j'))"
proof -
  from settle_body_Inr [OF ij body] obtain c cr d dr and fromM toM :: member where
    dc: "drop i cs = c # cr" and dd: "drop j ds = d # dr"
    and s: "s = \<lparr> s_from = member_name fromM, s_fromId = member_id fromM,
               s_to = member_name toM, s_toId = member_id toM,
               s_amount = js_min (entry_amount c) (entry_amount d) \<rparr>"
    and dc': "drop i' cs' =
          (if js_lt (js_sub (entry_amount c) (js_min (entry_amount c) (entry_amount d))) tolerance
           then cr
           else c \<lparr> entry_amount :=
                    js_sub (entry_amount c) (js_min (entry_amount c) (entry_amount d)) \<rparr> # cr)"
    and dd': "drop j' ds' =
          (if js_lt (js_sub (entry_amount d) (js_min (entry_amount c) (entry_amount d))) tolerance
           then dr
           else d \<lparr> entry_amount :=
                    js_sub (entry_amount d) (js_min (entry_amount c) (entry_amount d)) \<rparr> # dr)"
    and i': "i' = (if js_lt (js_sub (entry_amount c) (js_min (entry_amount c) (entry_amount d))) tolerance
              then Suc i else i)"
    and j': "j' = (if js_lt (js_sub (entry_amount d) (js_min (entry_amount c) (entry_amount d))) tolerance
              then Suc j else j)"
    by blast
  define p where "p = js_min (entry_amount c) (entry_amount d)"
  define a where "a = js_sub (entry_amount c) p"
  define b where "b = js_sub (entry_amount d) p"
  from lv have c1: "js_le tolerance (entry_amount c)" and cr: "\<forall>e\<in>set cr. js_le tolerance (entry_amount e)"
    and d1: "js_le tolerance (entry_amount d)" and dr: "\<forall>e\<in>set dr. js_le tolerance (entry_amount e)"
    by (simp_all add: live_def dc dd)
  from pay_step [OF c1 d1] have amt: "js_le tolerance p"
    and alt: "(a = NaN \<and> b = NaN)
       \<or> ((js_lt a tolerance \<or> js_le tolerance a) \<and> (js_lt b tolerance \<or> js_le tolerance b)
          \<and> (js_lt a tolerance \<or> js_lt b tolerance))"
    by (simp_all only: p_def a_def b_def)
  note dc'' = dc' [folded p_def, folded a_def] and dd'' = dd' [folded p_def, folded b_def]
  note i'' = i' [folded p_def, folded a_def] and j'' = j' [folded p_def, folded b_def]
  from alt have "stuck cs' ds' i' j' \<or> (live cs' ds' i' j' \<and> i + j < i' + j')"
  proof
    assume "a = NaN \<and> b = NaN"
    then have "stuck cs' ds' i' j'"
      unfolding stuck_def dc'' dd'' by simp
    then show ?thesis ..
  next
    assume g: "(js_lt a tolerance \<or> js_le tolerance a) \<and> (js_lt b tolerance \<or> js_le tolerance b)
          \<and> (js_lt a tolerance \<or> js_lt b tolerance)"
    have "\<forall>e\<in>set (drop i' cs'). js_le tolerance (entry_amount e)"
      unfolding dc'' using g cr by auto
    moreover have "\<forall>e\<in>set (drop j' ds'). js_le tolerance (entry_amount e)"
      unfolding dd'' using g dr by auto
    moreover have "i + j < i' + j'"
      unfolding i'' j'' using g by auto
    ultimately show ?thesis by (simp add: live_def)
  qed
  moreover have "js_le tolerance (s_amount s)"
    using amt by (simp add: s p_def)
  ultimately show ?thesis by simp
qed

text \<open>
  The rule for loops that start with all amounts at least the tolerance: such a loop
  keeps that property until it returns, or runs forever.
\<close>

lemma settle_loop_live_rule:
  assumes run: "settle_loop ms cs ds i j out = Some (Inr ss)"
    and lv: "live cs ds i j"
    and init: "I cs ds i j out"
    and step: "\<And>cs ds i j out s cs' ds' i' j'.
        I cs ds i j out \<Longrightarrow> live cs ds i j \<Longrightarrow> i < length cs \<Longrightarrow> j < length ds \<Longrightarrow>
        settle_body ms cs ds i j = Inr (s, cs', ds', i', j') \<Longrightarrow>
        js_le tolerance (s_amount s) \<Longrightarrow> live cs' ds' i' j' \<Longrightarrow> i + j < i' + j' \<Longrightarrow>
        I cs' ds' i' j' (out @ [s])"
  shows "\<exists>cs' ds' i' j'. I cs' ds' i' j' ss \<and> live cs' ds' i' j'
           \<and> \<not> (i' < length cs' \<and> j' < length ds')"
proof -
  define J where "J = (\<lambda>(cs::entry list) (ds::entry list) (i::nat) (j::nat)
      (out::settlement list). I cs ds i j out \<and> live cs ds i j)"
  have "\<exists>cs' ds' i' j'. J cs' ds' i' j' ss \<and> \<not> (i' < length cs' \<and> j' < length ds')"
  proof (rule settle_loop_rule [where I = J and D = stuck, OF run])
    show "J cs ds i j out" using init lv by (simp add: J_def)
  next
    fix cs ds i j out s cs' ds' i' j'
    assume inv: "J cs ds i j out" and ij: "i < length cs" "j < length ds"
      and body: "settle_body ms cs ds i j = Inr (s, cs', ds', i', j')"
    from inv have I0: "I cs ds i j out" and l0: "live cs ds i j" by (simp_all add: J_def)
    from live_step [OF l0 ij body] have amt: "js_le tolerance (s_amount s)"
      and alt: "stuck cs' ds' i' j' \<or> (live cs' ds' i' j' \<and> i + j < i' + j')"
      by simp_all
    from alt show "J cs' ds' i' j' (out @ [s]) \<or> stuck cs' ds' i' j'"
    proof
      assume "stuck cs' ds' i' j'" then show ?thesis ..
    next
      assume l1: "live cs' ds' i' j' \<and> i + j < i' + j'"
      then have "I cs' ds' i' j' (out @ [s])"
        using step [OF I0 l0 ij body amt] by blast
      with l1 show ?thesis by (simp add: J_def)
    qed
  next
    fix cs ds i j s cs' ds' i' j'
    assume "stuck cs ds i j"
    then show "i < length cs \<and> j < length ds
        \<and> (settle_body ms cs ds i j = Inr (s, cs', ds', i', j') \<longrightarrow> stuck cs' ds' i' j')"
      by (rule stuck_step)
  qed
  then show ?thesis unfolding J_def by blast
qed

subsection \<open>Creditors and debtors\<close>

lemma classify_pair:
  "classify (cs, ds) (k, v) =
     (if js_gt v tolerance then (cs @ [\<lparr> entry_memberId = k, entry_amount = v \<rparr>], ds)
      else if js_lt v (js_neg tolerance) then
        (cs, ds @ [\<lparr> entry_memberId = k, entry_amount = js_abs v \<rparr>])
      else (cs, ds))"
  by (simp add: classify_def)

lemma foldl_classify:
  "foldl classify (cs, ds) bal = (cs @ creditorsOf bal, ds @ debtorsOf bal)"
proof (induction bal arbitrary: cs ds)
  case Nil
  show ?case by (simp add: creditorsOf_def debtorsOf_def)
next
  case (Cons kv bal)
  obtain k v where kv: "kv = (k, v)" by (cases kv)
  show ?case
    unfolding kv foldl_Cons classify_pair
    by (simp add: Cons.IH) (simp add: creditorsOf_def debtorsOf_def)
qed

lemma settleDebts_unfold:
  "settleDebts bal grp =
     settle_loop (members grp) (sortDesc (creditorsOf bal)) (sortDesc (debtorsOf bal)) 0 0 []"
  by (simp add: settleDebts_def foldl_classify)

lemma creditorsOf_amount: "e \<in> set (creditorsOf bal) \<Longrightarrow> js_le tolerance (entry_amount e)"
  by (auto simp: creditorsOf_def js_gt_tolerance_le)

lemma debtorsOf_amount: "e \<in> set (debtorsOf bal) \<Longrightarrow> js_le tolerance (entry_amount e)"
  by (auto simp: debtorsOf_def js_lt_neg_tolerance_abs)

lemma creditorsOf_ids:
  "map entry_memberId (creditorsOf bal) = map fst (filter (\<lambda>(k, v). js_gt v tolerance) bal)"
  by (induction bal) (auto simp: creditorsOf_def)

lemma debtorsOf_ids:
  "map entry_memberId (debtorsOf bal) =
     map fst (filter (\<lambda>(k, v). \<not> js_gt v tolerance \<and> js_lt v (js_neg tolerance)) bal)"
  by (induction bal) (auto simp: debtorsOf_def)

lemma creditors_debtors_disjoint:
  assumes "distinct (map fst bal)"
  shows "entry_memberId ` set (creditorsOf bal) \<inter> entry_memberId ` set (debtorsOf bal) = {}"
proof -
  have "set (map entry_memberId (creditorsOf bal)) \<inter> set (map entry_memberId (debtorsOf bal)) = {}"
    unfolding creditorsOf_ids debtorsOf_ids using assms
    by (induction bal) (auto simp: image_iff)
  then show ?thesis by simp
qed

lemma creditorsOf_Nil [simp]: "creditorsOf [] = []"
  by (simp add: creditorsOf_def)

lemma debtorsOf_Nil [simp]: "debtorsOf [] = []"
  by (simp add: debtorsOf_def)

lemma creditorsOf_Cons:
  "creditorsOf ((k, v) # bal) =
     (if js_gt v tolerance then \<lparr> entry_memberId = k, entry_amount = v \<rparr> # creditorsOf bal
      else creditorsOf bal)"
  by (simp add: creditorsOf_def)

lemma debtorsOf_Cons:
  "debtorsOf ((k, v) # bal) =
     (if \<not> js_gt v tolerance \<and> js_lt v (js_neg tolerance)
      then \<lparr> entry_memberId = k, entry_amount = js_abs v \<rparr> # debtorsOf bal
      else debtorsOf bal)"
  by (simp add: debtorsOf_def)

lemma mset_insertDesc: "mset (insertDesc a xs) = add_mset a (mset xs)"
  by (induction xs) simp_all

lemma mset_sortDesc: "mset (sortDesc xs) = mset xs"
  by (induction xs) (simp_all add: sortDesc_def mset_insertDesc)

lemma sortDesc_set: "set (sortDesc xs) = set xs"
  using mset_sortDesc [of xs] by (metis set_mset_mset)

lemma length_sortDesc: "length (sortDesc xs) = length xs"
  using mset_sortDesc [of xs] by (metis size_mset)

lemma live_initial: "live (sortDesc (creditorsOf bal)) (sortDesc (debtorsOf bal)) 0 0"
  by (simp add: live_def sortDesc_set creditorsOf_amount debtorsOf_amount)

subsection \<open>Every emitted settlement is well formed\<close>

lemma settle_loop_settlements:
  assumes run: "settle_loop ms cs ds i j out = Some (Inr ss)"
    and lv: "live cs ds i j"
    and out: "\<forall>s\<in>set out. settlement_ok ms (entry_memberId ` set cs) (entry_memberId ` set ds) s"
  shows "\<forall>s\<in>set ss. settlement_ok ms (entry_memberId ` set cs) (entry_memberId ` set ds) s"
proof -
  define C where "C = entry_memberId ` set cs"
  define D where "D = entry_memberId ` set ds"
  define I where "I = (\<lambda>(cs::entry list) (ds::entry list) (i::nat) (j::nat) out.
      entry_memberId ` set cs = C \<and> entry_memberId ` set ds = D
      \<and> (\<forall>s\<in>set out. settlement_ok ms C D s))"
  have init: "I cs ds i j out"
    using out by (simp add: I_def C_def D_def)
  have step: "I cs' ds' i' j' (out @ [s])"
    if inv: "I cs ds i j out" and ij: "i < length cs" "j < length ds"
      and body: "settle_body ms cs ds i j = Inr (s, cs', ds', i', j')"
      and amt: "js_le tolerance (s_amount s)"
    for cs ds i j out s cs' ds' i' j'
  proof -
    from settle_body_Inr [OF ij body] obtain c cr d dr fromM toM where
      dc: "drop i cs = c # cr" and dd: "drop j ds = d # dr"
      and fm: "fromM \<in> set ms" "member_id fromM = entry_memberId d"
      and tm: "toM \<in> set ms" "member_id toM = entry_memberId c"
      and s: "s = \<lparr> s_from = member_name fromM, s_fromId = member_id fromM,
               s_to = member_name toM, s_toId = member_id toM,
               s_amount = js_min (entry_amount c) (entry_amount d) \<rparr>"
      and ids: "map entry_memberId cs' = map entry_memberId cs"
               "map entry_memberId ds' = map entry_memberId ds"
      by - (elim exE conjE, (rule that; assumption))
    from inv have C: "entry_memberId ` set cs = C" and D: "entry_memberId ` set ds = D"
      and o: "\<forall>s\<in>set out. settlement_ok ms C D s"
      by (simp_all add: I_def)
    have cin: "c \<in> set cs" using dc by (metis in_set_dropD list.set_intros(1))
    have din: "d \<in> set ds" using dd by (metis in_set_dropD list.set_intros(1))
    have "entry_memberId c \<in> C" "entry_memberId d \<in> D"
      using cin din C D by blast+
    moreover have "\<exists>m\<in>set ms. member_id m = member_id fromM \<and> member_name m = member_name fromM"
      using fm(1) by blast
    moreover have "\<exists>m\<in>set ms. member_id m = member_id toM \<and> member_name m = member_name toM"
      using tm(1) by blast
    ultimately have ok: "settlement_ok ms C D s"
      unfolding settlement_ok_def using amt fm(2) tm(2) unfolding s
      by (simp only: settlement.simps simp_thms)
    have "set (map entry_memberId cs') = set (map entry_memberId cs)"
      by (simp only: ids)
    with C have C': "entry_memberId ` set cs' = C"
      by (simp only: set_map)
    have "set (map entry_memberId ds') = set (map entry_memberId ds)"
      by (simp only: ids)
    with D have D': "entry_memberId ` set ds' = D"
      by (simp only: set_map)
    show ?thesis
      unfolding I_def using C' D' o ok by simp
  qed
  have "\<exists>cs' ds' i' j'. I cs' ds' i' j' ss \<and> live cs' ds' i' j'
           \<and> \<not> (i' < length cs' \<and> j' < length ds')"
  proof (rule settle_loop_live_rule [where I = I, OF run lv init])
    fix cs ds i j out s cs' ds' i' j'
    assume "I cs ds i j out" "i < length cs" "j < length ds"
      "settle_body ms cs ds i j = Inr (s, cs', ds', i', j')" "js_le tolerance (s_amount s)"
    then show "I cs' ds' i' j' (out @ [s])" by (rule step)
  qed
  then obtain cs' ds' i' j' where "I cs' ds' i' j' ss" by blast
  then have "\<forall>s\<in>set ss. settlement_ok ms C D s" unfolding I_def by blast
  then show ?thesis by (simp only: C_def D_def)
qed

lemma settleDebts_settlements:
  assumes "settleDebts bal grp = Some (Inr ss)"
  shows "\<forall>s\<in>set ss. settlement_ok (members grp) (entry_memberId ` set (creditorsOf bal))
            (entry_memberId ` set (debtorsOf bal)) s"
proof -
  from assms have run: "settle_loop (members grp) (sortDesc (creditorsOf bal))
      (sortDesc (debtorsOf bal)) 0 0 [] = Some (Inr ss)"
    by (simp add: settleDebts_unfold)
  have "\<forall>s\<in>set ss. settlement_ok (members grp) (entry_memberId ` set (sortDesc (creditorsOf bal)))
            (entry_memberId ` set (sortDesc (debtorsOf bal))) s"
    by (rule settle_loop_settlements [OF run live_initial]) simp
  then show ?thesis by (simp add: sortDesc_set)
qed

subsection \<open>Number of iterations of a loop that returns\<close>

lemma settle_loop_length:
  assumes run: "settle_loop ms cs ds i j out = Some (Inr ss)"
    and lv: "live cs ds i j"
  shows "length ss \<le> length out + pot cs ds i j"
proof -
  define N where "N = length out + pot cs ds i j"
  define I where "I = (\<lambda>(cs::entry list) (ds::entry list) (i::nat) (j::nat) (out::settlement list).
      length out + pot cs ds i j \<le> N)"
  have init: "I cs ds i j out" by (simp add: I_def N_def)
  have "\<exists>cs' ds' i' j'. I cs' ds' i' j' ss \<and> live cs' ds' i' j'
      \<and> \<not> (i' < length cs' \<and> j' < length ds')"
  proof (rule settle_loop_live_rule [where I = I, OF run lv init])
    fix cs ds i j out s cs' ds' i' j'
    assume inv: "I cs ds i j out" and ij: "i < length cs" "j < length ds"
      and body: "settle_body ms cs ds i j = Inr (s, cs', ds', i', j')"
      and p: "i + j < i' + j'"
    from settle_body_Inr [OF ij body]
    have l: "length cs' = length cs" "length ds' = length ds"
      by blast+
    from body ij have q: "i \<le> i'" "j \<le> j'"
      by (auto simp: settle_body_def Let_def split: option.splits if_splits)
    have "Suc (pot cs' ds' i' j') \<le> pot cs ds i j"
      using ij l p q by (auto simp: pot_def)
    with inv show "I cs' ds' i' j' (out @ [s])"
      by (simp add: I_def)
  qed
  then obtain cs' ds' i' j' where "I cs' ds' i' j' ss" "\<not> (i' < length cs' \<and> j' < length ds')"
    by blast
  then have "length ss \<le> N" by (simp add: I_def pot_def)
  then show ?thesis by (simp add: N_def)
qed

lemma length_creditorsOf: "length (creditorsOf bal) = numCreditors bal"
  by (simp add: creditorsOf_def numCreditors_def)

lemma debtor_test:
  "(\<not> js_gt v tolerance \<and> js_lt v (js_neg tolerance)) = js_lt v (js_neg tolerance)"
proof -
  obtain t where t: "tolerance = Num t" "0 < t" "t < 1" by (rule tolerance_Num)
  show ?thesis unfolding t(1) using t(2) by (cases v) (auto simp: js_gt_def)
qed

lemma length_debtorsOf: "length (debtorsOf bal) = numDebtors bal"
proof -
  have "filter (\<lambda>(k, v). \<not> js_gt v tolerance \<and> js_lt v (js_neg tolerance)) bal
      = filter (\<lambda>(k, v). js_lt v (js_neg tolerance)) bal"
    by (simp only: debtor_test)
  then show ?thesis by (simp only: debtorsOf_def numDebtors_def length_map)
qed

text \<open>
  Whenever the planner returns a list, it has at most creditors + debtors - 1 entries,
  and none when there is no creditor or no debtor.
\<close>

lemma settleDebts_length:
  assumes "settleDebts balances grp = Some (Inr ss)"
  shows "length ss \<le> numCreditors balances + numDebtors balances - 1"
    and "numCreditors balances = 0 \<or> numDebtors balances = 0 \<Longrightarrow> ss = []"
proof -
  from assms have "settle_loop (members grp) (sortDesc (creditorsOf balances))
      (sortDesc (debtorsOf balances)) 0 0 [] = Some (Inr ss)"
    by (simp add: settleDebts_unfold)
  from settle_loop_length [OF this live_initial]
  have "length ss \<le> pot (sortDesc (creditorsOf balances)) (sortDesc (debtorsOf balances)) 0 0"
    by simp
  then have len: "length ss \<le> (if 0 < numCreditors balances \<and> 0 < numDebtors balances
      then numCreditors balances + numDebtors balances - 1 else 0)"
    unfolding pot_def length_sortDesc length_creditorsOf length_debtorsOf
    by (simp only: diff_zero)
  then show "length ss \<le> numCreditors balances + numDebtors balances - 1"
    by (simp split: if_splits)
  from len show "ss = []" if "numCreditors balances = 0 \<or> numDebtors balances = 0"
    using that by (auto split: if_splits)
qed

section \<open>Overflow to infinity\<close>

text \<open>A loop that stays inside a set of states in which it continues never returns.\<close>

lemma settle_loop_diverges:
  assumes D: "D cs ds i j"
    and doom: "\<And>cs ds i j. D cs ds i j \<Longrightarrow> i < length cs \<and> j < length ds
        \<and> (\<exists>s cs' ds' i' j'. settle_body ms cs ds i j = Inr (s, cs', ds', i', j') \<and> D cs' ds' i' j')"
  shows "settle_loop ms cs ds i j out = None"
proof (cases "settle_loop ms cs ds i j out")
  case None
  then show ?thesis .
next
  case (Some y)
  define P where "P = (\<lambda>ms' (cs::entry list) (ds::entry list) (i::nat) (j::nat)
      (out::settlement list) (y::js_error + settlement list). ms' = ms \<longrightarrow> \<not> D cs ds i j)"
  have "P ms cs ds i j out y"
  proof (rule settle_loop.raw_induct [where P = P, OF _ Some])
    fix f :: "member list \<Rightarrow> entry list \<Rightarrow> entry list \<Rightarrow> nat \<Rightarrow> nat \<Rightarrow> settlement list
        \<Rightarrow> (js_error + settlement list) option"
    fix ms' cs ds i j out y
    assume IH: "\<And>ms cs ds i j out y. f ms cs ds i j out = Some y \<Longrightarrow> P ms cs ds i j out y"
    assume eq: "(if i < length cs \<and> j < length ds
         then case settle_body ms' cs ds i j of Inl e \<Rightarrow> Some (Inl e)
              | Inr (s, cs', ds', i', j') \<Rightarrow> f ms' cs' ds' i' j' (out @ [s])
         else Some (Inr out)) = Some y"
    show "P ms' cs ds i j out y"
      unfolding P_def
    proof (intro impI notI)
      assume m: "ms' = ms" and d: "D cs ds i j"
      from doom [OF d] obtain s cs' ds' i' j' where ij: "i < length cs" "j < length ds"
        and body: "settle_body ms cs ds i j = Inr (s, cs', ds', i', j')"
        and d': "D cs' ds' i' j'"
        by blast
      from eq ij body m have "f ms cs' ds' i' j' (out @ [s]) = Some y" by simp
      from IH [OF this] d' show False by (simp add: P_def)
    qed
  qed
  with D show ?thesis by (simp add: P_def)
qed

lemma round_double_scaled:
  assumes "0 < m" "m < 2 ^ 53" "k \<le> 971"
  shows "round_double (of_int m * 2 ^ k) = Num (of_int m * 2 ^ k)"
proof -
  have "pow2 (int k) = 2 ^ k" by (simp add: pow2_def)
  with round_double_dyadic_pos [of m "int k"] assms show ?thesis by simp
qed

lemma round_double_overflow_pos: "2 ^ 1024 \<le> x \<Longrightarrow> round_double x = PInf"
  by (rule round_double_overflow) (simp add: pow2_def)

lemma round_double_overflow_neg: "x \<le> - (2 ^ 1024) \<Longrightarrow> round_double x = NInf"
  using round_double_overflow_pos [of "- x"] by (simp add: round_double_neg) (cases "round_double x"; simp)

lemma huge_sums:
  "round_double (3 * 2 ^ 1022) = Num (3 * 2 ^ 1022)"
  "round_double (3 * 2 ^ 1021) = Num (3 * 2 ^ 1021)"
  "round_double (3 * 2 ^ 1022 / 2) = Num (3 * 2 ^ 1021)"
  "round_double (3 * 2 ^ 1022 - 3 * 2 ^ 1021) = Num (3 * 2 ^ 1021)"
  "round_double (- (3 * 2 ^ 1021)) = Num (- (3 * 2 ^ 1021))"
  "round_double (3 * 2 ^ 1021 + 3 * 2 ^ 1022) = PInf"
  "round_double (- (3 * 2 ^ 1021) - 3 * 2 ^ 1021) = Num (- (3 * 2 ^ 1022))"
  "round_double (- (3 * 2 ^ 1022) - 3 * 2 ^ 1021) = NInf"
proof -
  have a: "round_double (3 * 2 ^ 1022) = Num (3 * 2 ^ 1022)"
    using round_double_scaled [of "3 * 2 ^ 51" 971] by simp
  have b: "round_double (3 * 2 ^ 1021) = Num (3 * 2 ^ 1021)"
    using round_double_scaled [of "3 * 2 ^ 50" 971] by simp
  show "round_double (3 * 2 ^ 1022) = Num (3 * 2 ^ 1022)" by (rule a)
  show "round_double (3 * 2 ^ 1021) = Num (3 * 2 ^ 1021)" by (rule b)
  show "round_double (3 * 2 ^ 1022 / 2) = Num (3 * 2 ^ 1021)" using b by simp
  show "round_double (3 * 2 ^ 1022 - 3 * 2 ^ 1021) = Num (3 * 2 ^ 1021)" using b by simp
  show "round_double (- (3 * 2 ^ 1021)) = Num (- (3 * 2 ^ 1021))"
    using b by (simp add: round_double_neg)
  show "round_double (3 * 2 ^ 1021 + 3 * 2 ^ 1022) = PInf"
    by (rule round_double_overflow_pos) simp
  show "round_double (- (3 * 2 ^ 1021) - 3 * 2 ^ 1021) = Num (- (3 * 2 ^ 1022))"
    using a round_double_neg [of "3 * 2 ^ 1022"] by simp
  show "round_double (- (3 * 2 ^ 1022) - 3 * 2 ^ 1021) = NInf"
    by (rule round_double_overflow_neg) simp
qed

lemma huge_add:
  "addExpense i ''t1'' (huge_store is) ''p'' ''Yacht'' (Num (3 * 2 ^ 1022)) ''A'' ''equal'' []
     = Inr (huge_store (is @ [i]))"
proof -
  have "js_div (Num (3 * 2 ^ 1022)) (Num 2) = Num (3 * 2 ^ 1021)"
    using huge_sums(3) by simp
  then show ?thesis
    by (simp add: addExpense_def huge_store_def demo_pair_def huge_expense_def Let_def)
qed

lemma huge_apply1:
  "applyExpense [(''A'', Num 0), (''B'', Num 0)] (huge_expense i)
     = [(''A'', Num (3 * 2 ^ 1021)), (''B'', Num (- (3 * 2 ^ 1021)))]"
proof -
  have "js_add (Num 0) (Num (3 * 2 ^ 1022)) = Num (3 * 2 ^ 1022)"
    using huge_sums(1) by simp
  moreover have "js_sub (Num (3 * 2 ^ 1022)) (Num (3 * 2 ^ 1021)) = Num (3 * 2 ^ 1021)"
    using huge_sums(4) by (simp add: js_sub_def)
  moreover have "js_sub (Num 0) (Num (3 * 2 ^ 1021)) = Num (- (3 * 2 ^ 1021))"
    using huge_sums(5) by (simp add: js_sub_def)
  ultimately show ?thesis
    by (simp add: applyExpense_def huge_expense_def obj_add_def obj_sub_def obj_set_def)
qed

lemma huge_apply2:
  "applyExpense [(''A'', Num (3 * 2 ^ 1021)), (''B'', Num (- (3 * 2 ^ 1021)))] (huge_expense i)
     = [(''A'', PInf), (''B'', Num (- (3 * 2 ^ 1022)))]"
proof -
  have "js_add (Num (3 * 2 ^ 1021)) (Num (3 * 2 ^ 1022)) = PInf"
    using huge_sums(6) by simp
  moreover have "js_sub (Num (- (3 * 2 ^ 1021))) (Num (3 * 2 ^ 1021)) = Num (- (3 * 2 ^ 1022))"
    using huge_sums(7) by (simp add: js_sub_def)
  ultimately show ?thesis
    by (simp add: applyExpense_def huge_expense_def obj_add_def obj_sub_def obj_set_def js_sub_def)
qed

lemma huge_apply3:
  "applyExpense [(''A'', PInf), (''B'', Num (- (3 * 2 ^ 1022)))] (huge_expense i)
     = [(''A'', PInf), (''B'', NInf)]"
proof -
  have "js_sub (Num (- (3 * 2 ^ 1022))) (Num (3 * 2 ^ 1021)) = NInf"
    using huge_sums(8) by (simp add: js_sub_def)
  then show ?thesis
    by (simp add: applyExpense_def huge_expense_def obj_add_def obj_sub_def obj_set_def js_sub_def)
qed

lemma huge_balances:
  "calculateBalances (huge_store [''e1'', ''e2'', ''e3'']) ''p'' = [(''A'', PInf), (''B'', NInf)]"
proof -
  have init: "initBalances (members demo_pair) = [(''A'', Num 0), (''B'', Num 0)]"
    by (simp add: initBalances_def demo_pair_def obj_set_def)
  have f: "filter (\<lambda>e. exp_groupId e = ''p'') (map huge_expense is) = map huge_expense is" for "is"
    by (induction "is") (simp_all add: huge_expense_def)
  have g: "find (\<lambda>g. group_id g = ''p'') [demo_pair] = Some demo_pair"
    by (simp add: demo_pair_def)
  show ?thesis
    unfolding calculateBalances_def huge_store_def Let_def store.simps f g option.case init
    by (simp only: list.map foldl_Cons foldl_Nil filter.simps huge_apply1 huge_apply2 huge_apply3)
qed

lemma infinite_balances_loop:
  "settleDebts [(''A'', PInf), (''B'', NInf)] demo_pair = None"
proof -
  let ?ms = "members demo_pair"
  let ?s = "\<lparr> s_from = ''Bob'', s_fromId = ''B'', s_to = ''Ann'', s_toId = ''A'', s_amount = PInf \<rparr>"
  let ?n = "\<lparr> s_from = ''Bob'', s_fromId = ''B'', s_to = ''Ann'', s_toId = ''A'', s_amount = NaN \<rparr>"
  let ?c = "[\<lparr> entry_memberId = ''A'', entry_amount = NaN \<rparr>]"
  let ?d = "[\<lparr> entry_memberId = ''B'', entry_amount = NaN \<rparr>]"
  obtain t where t: "tolerance = Num t" "0 < t" "t < 1" by (rule tolerance_Num)
  have cl: "foldl classify ([], []) [(''A'', PInf), (''B'', NInf)]
      = ([\<lparr> entry_memberId = ''A'', entry_amount = PInf \<rparr>],
         [\<lparr> entry_memberId = ''B'', entry_amount = PInf \<rparr>])"
    by (simp add: classify_def t(1) js_gt_def)
  have first: "settle_body ?ms [\<lparr> entry_memberId = ''A'', entry_amount = PInf \<rparr>]
      [\<lparr> entry_memberId = ''B'', entry_amount = PInf \<rparr>] 0 0 = Inr (?s, ?c, ?d, 0, 0)"
    by (simp add: settle_body_def demo_pair_def js_sub_def)
  have again: "settle_body ?ms ?c ?d 0 0 = Inr (?n, ?c, ?d, 0, 0)"
    by (simp add: settle_body_def demo_pair_def js_sub_def)
  have "settle_loop ?ms ?c ?d 0 0 [?s] = None"
  proof (rule settle_loop_diverges [where D = "\<lambda>cs ds i j. cs = ?c \<and> ds = ?d \<and> i = 0 \<and> j = 0"])
    show "?c = ?c \<and> ?d = ?d \<and> (0::nat) = 0 \<and> (0::nat) = 0" by simp
  next
    fix cs ds :: "entry list" and i j :: nat
    assume "cs = ?c \<and> ds = ?d \<and> i = 0 \<and> j = 0"
    then show "i < length cs \<and> j < length ds
        \<and> (\<exists>s cs' ds' i' j'. settle_body ?ms cs ds i j = Inr (s, cs', ds', i', j')
              \<and> (cs' = ?c \<and> ds' = ?d \<and> i' = 0 \<and> j' = 0))"
      using again by simp
  qed
  then show ?thesis
    unfolding settleDebts_def cl
    by (simp add: sortDesc_def settle_loop_step [OF _ _ first])
qed

section \<open>Evaluation on the example data\<close>

subsection \<open>Evaluation of the arithmetic on whole numbers\<close>

lemma round_double_numeral:
  "numeral w \<le> (2 ^ 53 :: int) \<Longrightarrow> round_double (numeral w) = Num (numeral w)"
  using round_double_int [of "numeral w"] by simp

lemma round_double_neg_numeral:
  "numeral w \<le> (2 ^ 53 :: int) \<Longrightarrow> round_double (- numeral w) = Num (- numeral w)"
  using round_double_int [of "- numeral w"] by simp

lemma round_double_1: "round_double 1 = Num 1"
  using round_double_int [of 1] by simp

lemmas js_eval = round_double_numeral round_double_neg_numeral round_double_1 round_double_0
  js_sub_def js_gt_def tolerance_val Let_def

lemma demo_settle:
  "settleDebts demo_balances demo_group =
     Some (Inr [\<lparr> s_from = ''Bob'', s_fromId = ''B'', s_to = ''Ann'', s_toId = ''A'', s_amount = Num 30 \<rparr>,
          \<lparr> s_from = ''Cy'', s_fromId = ''C'', s_to = ''Ann'', s_toId = ''A'', s_amount = Num 30 \<rparr>])"
  by (simp add: demo_balances_def demo_group_def settleDebts_def classify_def sortDesc_def
        settle_loop.simps settle_body_def js_eval)

lemma demo_settlement_emitted: "demo_settlement \<in> set
     [\<lparr> s_from = ''Bob'', s_fromId = ''B'', s_to = ''Ann'', s_toId = ''A'', s_amount = Num 30 \<rparr>,
      \<lparr> s_from = ''Cy'', s_fromId = ''C'', s_to = ''Ann'', s_toId = ''A'', s_amount = Num 30 \<rparr>]"
  by (simp add: demo_settlement_def)

section \<open>The group dialog\<close>

lemma set_dedup [simp]: "set (dedup xs) = set xs"
  by (induction xs rule: dedup.induct) auto

lemma distinct_dedup [simp]: "distinct (dedup xs)"
  by (induction xs rule: dedup.induct) auto

lemma foldl_addMember:
  "foldl addMember acc inputs
     = acc @ dedup (filter (\<lambda>s. s \<noteq> [] \<and> s \<notin> set acc) (map trim inputs))"
proof (induction inputs arbitrary: acc)
  case Nil
  show ?case by simp
next
  case (Cons x xs)
  show ?case
  proof (cases "trim x \<noteq> [] \<and> trim x \<notin> set acc")
    case True
    have f: "filter (\<lambda>y. y \<noteq> trim x) (filter (\<lambda>s. s \<noteq> [] \<and> s \<notin> set acc) (map trim xs))
        = filter (\<lambda>s. s \<noteq> [] \<and> s \<notin> set (acc @ [trim x])) (map trim xs)"
      by (auto simp: filter_filter intro: filter_cong)
    from True have a: "addMember acc x = acc @ [trim x]" by (simp add: addMember_def)
    from True have "filter (\<lambda>s. s \<noteq> [] \<and> s \<notin> set acc) (map trim (x # xs))
        = trim x # filter (\<lambda>s. s \<noteq> [] \<and> s \<notin> set acc) (map trim xs)"
      by simp
    then have "acc @ dedup (filter (\<lambda>s. s \<noteq> [] \<and> s \<notin> set acc) (map trim (x # xs)))
        = (acc @ [trim x]) @ dedup (filter (\<lambda>s. s \<noteq> [] \<and> s \<notin> set (acc @ [trim x])) (map trim xs))"
      by (simp only: dedup.simps f append_assoc append_Cons append_Nil)
    then show ?thesis
      by (simp only: foldl_Cons a Cons.IH)
  next
    case False
    then have a: "addMember acc x = acc" by (auto simp: addMember_def)
    from False have "filter (\<lambda>s. s \<noteq> [] \<and> s \<notin> set acc) (map trim (x # xs))
        = filter (\<lambda>s. s \<noteq> [] \<and> s \<notin> set acc) (map trim xs)"
      by auto
    then show ?thesis
      by (simp only: foldl_Cons a Cons.IH)
  qed
qed

lemma demo_uuid_inj: "inj demo_uuid"
proof (rule injI)
  fix x y
  assume "demo_uuid x = demo_uuid y"
  then have "length (demo_uuid x) = length (demo_uuid y)" by simp
  then show "x = y" by (simp add: demo_uuid_def)
qed

section \<open>Exact arithmetic on a binary grid\<close>

subsection \<open>Amounts on a binary grid are added and subtracted exactly\<close>

lemma dyadic_iff: "dyadic k x \<longleftrightarrow> (\<exists>n::int. x * 2 ^ k = of_int n)"
  by (auto simp: dyadic_def)


lemma dyadic_add: "dyadic k x \<Longrightarrow> dyadic k y \<Longrightarrow> dyadic k (x + y)"
proof -
  assume "dyadic k x" "dyadic k y"
  then obtain n m :: int where "x * 2 ^ k = of_int n" "y * 2 ^ k = of_int m"
    unfolding dyadic_iff by blast
  then have "(x + y) * 2 ^ k = of_int (n + m)"
    by (simp add: algebra_simps)
  then show ?thesis unfolding dyadic_iff by blast
qed

lemma dyadic_minus: "dyadic k x \<Longrightarrow> dyadic k (- x)"
proof -
  assume "dyadic k x"
  then obtain n :: int where "x * 2 ^ k = of_int n"
    unfolding dyadic_iff by blast
  then have "(- x) * 2 ^ k = of_int (- n)" by simp
  then show ?thesis unfolding dyadic_iff by blast
qed

lemma dyadic_diff: "dyadic k x \<Longrightarrow> dyadic k y \<Longrightarrow> dyadic k (x - y)"
  using dyadic_add [of k x "- y"] by (simp add: dyadic_minus)

lemma dyadic_abs: "dyadic k x \<Longrightarrow> dyadic k \<bar>x\<bar>"
  by (simp add: abs_if dyadic_minus)

lemma dyadic_min: "dyadic k x \<Longrightarrow> dyadic k y \<Longrightarrow> dyadic k (min x y)"
  by (simp add: min_def)

lemma round_double_grid_pos:
  assumes k: "k \<le> 1074" and m: "0 < m" "m \<le> 2 ^ 53"
  shows "round_double (of_int m * pow2 (- int k)) = Num (of_int m * pow2 (- int k))"
proof (cases "m = 2 ^ 53")
  case True
  have "round_double (of_int (2 ^ 52) * pow2 (1 - int k)) = Num (of_int (2 ^ 52) * pow2 (1 - int k))"
    using k by (intro round_double_dyadic_pos) simp_all
  moreover have "of_int (2 ^ 52) * pow2 (1 - int k) = (of_int m :: rat) * pow2 (- int k)"
    using pow2_add [of 1 "- int k"] by (simp add: True pow2_def [of 1])
  ultimately show ?thesis by simp
next
  case False
  with m have "m < 2 ^ 53" by simp
  with m(1) k show ?thesis by (intro round_double_dyadic_pos) simp_all
qed

lemma round_double_grid:
  assumes k: "k \<le> 1074" and d: "dyadic k x" and b: "\<bar>x\<bar> * 2 ^ k \<le> 2 ^ 53"
  shows "round_double x = Num x"
proof -
  from d obtain n :: int where n: "x * 2 ^ k = of_int n"
    unfolding dyadic_iff by blast
  have p: "pow2 (- int k) = 1 / 2 ^ k" by (simp add: pow2_def)
  have x: "x = of_int n * pow2 (- int k)"
    using n by (simp add: p field_simps)
  have "\<bar>x * 2 ^ k\<bar> \<le> 2 ^ 53" using b by (simp add: abs_mult)
  then have "\<bar>(of_int n :: rat)\<bar> \<le> 2 ^ 53" by (simp only: n)
  then have "(of_int \<bar>n\<bar> :: rat) \<le> of_int (2 ^ 53)" by simp
  then have nb: "\<bar>n\<bar> \<le> 2 ^ 53" by (simp only: of_int_le_iff)
  consider "n = 0" | "0 < n" | "n < 0" by linarith
  then show ?thesis
  proof cases
    case 1
    then show ?thesis by (simp add: x)
  next
    case 2
    with nb have "n \<le> 2 ^ 53" by simp
    from round_double_grid_pos [OF k 2 this] show ?thesis by (simp only: x)
  next
    case 3
    with nb have "0 < - n" "- n \<le> 2 ^ 53" by simp_all
    from round_double_grid_pos [OF k this]
    have "round_double (- x) = Num (- x)" by (simp add: x)
    then show ?thesis
      unfolding round_double_neg by (cases "round_double x") simp_all
  qed
qed



subsection \<open>The balance object\<close>



lemma on_grid_Num: "on_grid k v \<Longrightarrow> \<exists>x. v = Num x \<and> dyadic k x"
  by (cases v) simp_all





















section \<open>Example ledgers\<close>















section \<open>Exact settlement on a binary grid\<close>

subsection \<open>Amounts on a grid coarser than the tolerance\<close>

lemma tolerance_small: obtains t where "tolerance = Num t" "0 < t" "t < 1 / 64"
  using tolerance_val by simp

lemma dyadic_pos_ge:
  assumes "dyadic k x" and "0 < x" and "k \<le> 6"
  shows "1 / 64 \<le> x"
proof -
  from assms(1) obtain n :: int where n: "x * 2 ^ k = of_int n"
    unfolding dyadic_iff by blast
  from assms(2) have "0 < x * 2 ^ k" by simp
  then have "0 < n" by (simp add: n)
  then have "1 \<le> n" by simp
  then have "(1::rat) \<le> of_int n" by simp
  then have "1 \<le> x * 2 ^ k" by (simp only: n)
  then have a: "1 / 2 ^ k \<le> x" by (simp add: pos_divide_le_eq)
  have "(2::rat) ^ k \<le> 2 ^ 6" using assms(3) by (intro power_increasing) simp_all
  then have "(1::rat) / 2 ^ 6 \<le> 1 / 2 ^ k" by (intro divide_left_mono) simp_all
  then have "(1::rat) / 64 \<le> 1 / 2 ^ k" by simp
  from this a show ?thesis by (rule order_trans)
qed

lemma grid_lt_tolerance:
  assumes "dyadic k x" and "0 \<le> x" and "k \<le> 6"
  shows "js_lt (Num x) tolerance \<longleftrightarrow> x = 0"
proof -
  obtain t where t: "tolerance = Num t" "0 < t" "t < 1 / 64" by (rule tolerance_small)
  show ?thesis
  proof (cases "x = 0")
    case True
    with t(2) show ?thesis unfolding t(1) by simp
  next
    case False
    with assms(2) have "0 < x" by simp
    from dyadic_pos_ge [OF assms(1) this assms(3)] t(3) have "\<not> x < t" by linarith
    with False show ?thesis unfolding t(1) by simp
  qed
qed

lemma grid_classify:
  assumes "dyadic k x" and "k \<le> 6"
  shows "js_gt (Num x) tolerance \<longleftrightarrow> 0 < x"
    and "js_lt (Num x) (js_neg tolerance) \<longleftrightarrow> x < 0"
proof -
  obtain t where t: "tolerance = Num t" "0 < t" "t < 1 / 64" by (rule tolerance_small)
  show "js_gt (Num x) tolerance \<longleftrightarrow> 0 < x"
  proof (cases "0 < x")
    case True
    from dyadic_pos_ge [OF assms(1) this assms(2)] t(3) have "t < x" by linarith
    with True show ?thesis unfolding t(1) by (simp add: js_gt_def)
  next
    case False
    with t(2) have "\<not> t < x" by linarith
    with False show ?thesis unfolding t(1) by (simp add: js_gt_def)
  qed
  show "js_lt (Num x) (js_neg tolerance) \<longleftrightarrow> x < 0"
  proof (cases "x < 0")
    case True
    then have "0 < - x" by simp
    from dyadic_pos_ge [OF dyadic_minus [OF assms(1)] this assms(2)] t(3) have "x < - t" by linarith
    with True show ?thesis unfolding t(1) by simp
  next
    case False
    with t(2) have "\<not> x < - t" by linarith
    with False show ?thesis unfolding t(1) by simp
  qed
qed

lemma js_min_Num: "js_min (Num x) (Num y) = Num (min x y)"
  by (simp add: min_def)

lemma share_Nil [simp]: "share [] m = 0"
  by (simp add: share_def)

lemma share_Cons:
  "share (e # xs) m = (if entry_memberId e = m then finite_val (entry_amount e) else 0) + share xs m"
  by (simp add: share_def)

lemma recv_snoc:
  "recv (out @ [s]) m = recv out m + (if s_toId s = m then finite_val (s_amount s) else 0)"
  by (simp add: recv_def)

lemma pd_snoc:
  "pd (out @ [s]) m = pd out m + (if s_fromId s = m then finite_val (s_amount s) else 0)"
  by (simp add: pd_def)

lemma amounts_zero_Nil:
  assumes "grid_entries k xs" "amounts xs = 0"
  shows "xs = []"
proof (cases xs)
  case Nil
  then show ?thesis .
next
  case (Cons e es)
  from assms(1) have "\<forall>x\<in>set xs. 0 \<le> finite_val (entry_amount x)"
    by (auto simp: grid_entries_def intro: less_imp_le)
  then have "0 \<le> sum_list (map (\<lambda>e. finite_val (entry_amount e)) es)"
    unfolding Cons by (intro sum_list_nonneg) auto
  moreover from assms(1) have "0 < finite_val (entry_amount e)"
    by (simp add: grid_entries_def Cons)
  ultimately have "0 < amounts xs" by (simp add: amounts_def Cons)
  with assms(2) show ?thesis by simp
qed

text \<open>Effect of one iteration on the remaining part of one list.\<close>

lemma remaining_step:
  assumes k: "k \<le> 6" and ce: "grid_entries k (c # cr)" and x: "entry_amount c = Num x"
    and dp: "dyadic k p" and p: "0 < p" "p \<le> x"
    and rest: "rest = (if js_lt (js_sub (entry_amount c) (Num p)) tolerance then cr
                       else c \<lparr> entry_amount := js_sub (entry_amount c) (Num p) \<rparr> # cr)"
  shows "grid_entries k rest"
    and "amounts rest = amounts (c # cr) - p"
    and "share rest m = share (c # cr) m - (if entry_memberId c = m then p else 0)"
    and "js_lt (js_sub (entry_amount c) (Num p)) tolerance \<longleftrightarrow> x = p"
proof -
  from ce x have dx: "dyadic k x" and xb: "x * 2 ^ k \<le> 2 ^ 53" and cr: "grid_entries k cr"
    by (simp_all add: grid_entries_def)
  have dd: "dyadic k (x - p)" using dx dp by (rule dyadic_diff)
  have nn: "0 \<le> x - p" using p by simp
  have "\<bar>x - p\<bar> * 2 ^ k \<le> x * 2 ^ k" using p by (intro mult_right_mono) simp_all
  from this xb have b: "\<bar>x - p\<bar> * 2 ^ k \<le> 2 ^ 53" by (rule order_trans)
  have "round_double (x - p) = Num (x - p)"
    using dd b k by (intro round_double_grid) simp_all
  then have sub: "js_sub (entry_amount c) (Num p) = Num (x - p)"
    by (simp add: x js_sub_def)
  have lt: "js_lt (Num (x - p)) tolerance \<longleftrightarrow> x - p = 0"
    using dd nn k by (rule grid_lt_tolerance)
  have "grid_entries k rest \<and> amounts rest = amounts (c # cr) - p
      \<and> share rest m = share (c # cr) m - (if entry_memberId c = m then p else 0)"
  proof (cases "x - p = 0")
    case True
    with lt have r: "rest = cr" by (simp add: rest sub)
    have "grid_entries k rest" by (simp add: r cr)
    moreover have "amounts rest = amounts (c # cr) - p" using True by (simp add: r amounts_def x)
    moreover have "share rest m = share (c # cr) m - (if entry_memberId c = m then p else 0)"
      using True by (simp add: r share_Cons x)
    ultimately show ?thesis by simp
  next
    case False
    with lt have r: "rest = c \<lparr> entry_amount := Num (x - p) \<rparr> # cr" by (simp add: rest sub)
    from False nn have pos: "0 < x - p" by simp
    have "(x - p) * 2 ^ k \<le> 2 ^ 53" using b nn by simp
    with dd pos cr have "grid_entries k rest" by (simp add: r grid_entries_def)
    moreover have "amounts rest = amounts (c # cr) - p" by (simp add: r amounts_def x)
    moreover have "share rest m = share (c # cr) m - (if entry_memberId c = m then p else 0)"
      by (simp add: r share_Cons x)
    ultimately show ?thesis by simp
  qed
  then show "grid_entries k rest" and "amounts rest = amounts (c # cr) - p"
    and "share rest m = share (c # cr) m - (if entry_memberId c = m then p else 0)"
    by simp_all
  show "js_lt (js_sub (entry_amount c) (Num p)) tolerance \<longleftrightarrow> x = p"
    using lt by (simp add: sub)
qed

lemma settle_loop_exact:
  assumes k: "k \<le> 6"
    and ic: "entry_memberId ` set cs \<subseteq> member_id ` set ms"
    and id: "entry_memberId ` set ds \<subseteq> member_id ` set ms"
    and c0: "grid_entries k (drop i cs)" and d0: "grid_entries k (drop j ds)"
    and eq0: "amounts (drop i cs) = amounts (drop j ds)"
    and fo: "\<forall>s\<in>set out. \<exists>x. s_amount s = Num x"
  shows "\<exists>ss. settle_loop ms cs ds i j out = Some (Inr ss)
           \<and> (\<forall>s\<in>set ss. \<exists>x. s_amount s = Num x)
           \<and> (\<forall>m. recv ss m - pd ss m
                  = recv out m - pd out m + share (drop i cs) m - share (drop j ds) m)"
  using ic id c0 d0 eq0 fo
proof (induction "(length cs - i) + (length ds - j)" arbitrary: cs ds i j out rule: less_induct)
  case less
  show ?case
  proof (cases "i < length cs \<and> j < length ds")
    case False
    then have "drop i cs = [] \<or> drop j ds = []" by auto
    then have "amounts (drop i cs) = 0 \<and> amounts (drop j ds) = 0"
      using less.prems(5) by (auto simp: amounts_def)
    then have z: "amounts (drop i cs) = 0" "amounts (drop j ds) = 0"
      by simp_all
    have "drop i cs = []" using less.prems(3) z(1) by (rule amounts_zero_Nil)
    moreover have "drop j ds = []" using less.prems(4) z(2) by (rule amounts_zero_Nil)
    ultimately have "share (drop i cs) m = 0" "share (drop j ds) m = 0" for m
      by (simp_all only: share_Nil)
    with less.prems(6) False show ?thesis
      by (simp add: settle_loop_stop)
  next
    case True
    then have ij: "i < length cs" "j < length ds" by simp_all
    from settle_body_total [OF ij less.prems(1,2)] obtain s cs' ds' i' j'
      where body: "settle_body ms cs ds i j = Inr (s, cs', ds', i', j')" by blast
    from settle_body_Inr [OF ij body] obtain c cr d dr and fromM toM :: member where
      dc: "drop i cs = c # cr" and dd: "drop j ds = d # dr"
      and fm: "member_id fromM = entry_memberId d"
      and tm: "member_id toM = entry_memberId c"
      and s: "s = \<lparr> s_from = member_name fromM, s_fromId = member_id fromM,
               s_to = member_name toM, s_toId = member_id toM,
               s_amount = js_min (entry_amount c) (entry_amount d) \<rparr>"
      and dc': "drop i' cs' =
          (if js_lt (js_sub (entry_amount c) (js_min (entry_amount c) (entry_amount d))) tolerance
           then cr
           else c \<lparr> entry_amount :=
                    js_sub (entry_amount c) (js_min (entry_amount c) (entry_amount d)) \<rparr> # cr)"
      and dd': "drop j' ds' =
          (if js_lt (js_sub (entry_amount d) (js_min (entry_amount c) (entry_amount d))) tolerance
           then dr
           else d \<lparr> entry_amount :=
                    js_sub (entry_amount d) (js_min (entry_amount c) (entry_amount d)) \<rparr> # dr)"
      and len: "length cs' = length cs" "length ds' = length ds"
      and ids: "map entry_memberId cs' = map entry_memberId cs"
               "map entry_memberId ds' = map entry_memberId ds"
      and i': "i' = (if js_lt (js_sub (entry_amount c) (js_min (entry_amount c) (entry_amount d))) tolerance
              then Suc i else i)"
      and j': "j' = (if js_lt (js_sub (entry_amount d) (js_min (entry_amount c) (entry_amount d))) tolerance
              then Suc j else j)"
      by blast
    from less.prems(3,4) have ce: "grid_entries k (c # cr)" and de: "grid_entries k (d # dr)"
      by (simp_all add: dc dd)
    from ce obtain x where x: "entry_amount c = Num x" "dyadic k x" "0 < x"
      using on_grid_Num by (fastforce simp: grid_entries_def)
    from de obtain y where y: "entry_amount d = Num y" "dyadic k y" "0 < y"
      using on_grid_Num by (fastforce simp: grid_entries_def)
    define p where "p = min x y"
    have mn: "js_min (entry_amount c) (entry_amount d) = Num p"
      by (simp only: x(1) y(1) js_min_Num p_def)
    have dp: "dyadic k p" unfolding p_def using x(2) y(2) by (rule dyadic_min)
    have pp: "0 < p" "p \<le> x" "p \<le> y" using x(3) y(3) by (simp_all add: p_def)
    note rc = remaining_step [OF k ce x(1) dp pp(1,2) dc' [unfolded mn]]
    note rd = remaining_step [OF k de y(1) dp pp(1,3) dd' [unfolded mn]]
    have i'': "i' = (if x = p then Suc i else i)" using i' by (simp only: mn rc(4))
    have j'': "j' = (if y = p then Suc j else j)" using j' by (simp only: mn rd(4))
    have "x = p \<or> y = p" by (auto simp: p_def min_def)
    then have dec: "(length cs' - i') + (length ds' - j') < (length cs - i) + (length ds - j)"
      using ij by (auto simp: i'' j'' len)
    have "set (map entry_memberId cs') = set (map entry_memberId cs)" by (simp only: ids)
    with less.prems(1) have ic': "entry_memberId ` set cs' \<subseteq> member_id ` set ms"
      by (simp only: set_map)
    have "set (map entry_memberId ds') = set (map entry_memberId ds)" by (simp only: ids)
    with less.prems(2) have id': "entry_memberId ` set ds' \<subseteq> member_id ` set ms"
      by (simp only: set_map)
    have sp: "s_amount s = Num p" "s_toId s = entry_memberId c" "s_fromId s = entry_memberId d"
      by (simp_all add: s mn fm tm)
    have fo': "\<forall>s\<in>set (out @ [s]). \<exists>x. s_amount s = Num x"
      using less.prems(6) sp(1) by auto
    have eq': "amounts (drop i' cs') = amounts (drop j' ds')"
      using less.prems(5) by (simp only: rc(2) rd(2) dc dd)
    from less.hyps [OF dec ic' id' rc(1) rd(1) eq' fo'] obtain ss where
      run: "settle_loop ms cs' ds' i' j' (out @ [s]) = Some (Inr ss)"
      and fin: "\<forall>s\<in>set ss. \<exists>x. s_amount s = Num x"
      and val: "\<forall>m. recv ss m - pd ss m
          = recv (out @ [s]) m - pd (out @ [s]) m + share (drop i' cs') m - share (drop j' ds') m"
      by blast
    have "recv ss m - pd ss m = recv out m - pd out m + share (drop i cs) m - share (drop j ds) m"
      for m
    proof -
      from val have "recv ss m - pd ss m
          = recv (out @ [s]) m - pd (out @ [s]) m + share (drop i' cs') m - share (drop j' ds') m"
        by blast
      also have "\<dots> = recv out m - pd out m + share (c # cr) m - share (d # dr) m"
        unfolding recv_snoc pd_snoc rc(3) rd(3) sp by simp
      finally show ?thesis by (simp only: dc dd)
    qed
    with run fin show ?thesis
      by (simp only: settle_loop_step [OF ij body]) blast
  qed
qed

subsection \<open>Creditors and debtors of balances on the grid\<close>

lemma grid_balances_entries:
  assumes "grid_balances k bal" and "k \<le> 6"
  shows "grid_entries k (creditorsOf bal)" and "grid_entries k (debtorsOf bal)"
proof -
  have "grid_entries k (creditorsOf bal) \<and> grid_entries k (debtorsOf bal)"
    using assms(1)
  proof (induction bal)
    case Nil
    show ?case by (simp add: grid_entries_def)
  next
    case (Cons kv bal)
    obtain key v where kv: "kv = (key, v)" by (cases kv)
    from Cons.prems have gv: "on_grid k v" "\<bar>finite_val v\<bar> * 2 ^ k \<le> 2 ^ 53"
      and rest: "grid_balances k bal"
      by (simp_all add: kv grid_balances_def)
    from gv(1) obtain b where v: "v = Num b" and db: "dyadic k b" using on_grid_Num by blast
    from gv(2) have bb: "\<bar>b\<bar> * 2 ^ k \<le> 2 ^ 53" by (simp add: v)
    from Cons.IH [OF rest] have ih: "grid_entries k (creditorsOf bal)" "grid_entries k (debtorsOf bal)"
      by simp_all
    note cl = grid_classify [OF db assms(2)]
    have c: "grid_entries k (creditorsOf (kv # bal))"
    proof (cases "0 < b")
      case True
      with bb have "b * 2 ^ k \<le> 2 ^ 53" by simp
      with True db ih(1) show ?thesis
        unfolding kv v creditorsOf_Cons cl by (simp add: grid_entries_def)
    next
      case False
      with ih(1) show ?thesis unfolding kv v creditorsOf_Cons cl by simp
    qed
    have d: "grid_entries k (debtorsOf (kv # bal))"
    proof (cases "b < 0")
      case True
      then have nb: "\<not> 0 < b" "0 < \<bar>b\<bar>" by simp_all
      with True dyadic_abs [OF db] bb ih(2) show ?thesis
        unfolding kv v debtorsOf_Cons cl by (simp add: grid_entries_def)
    next
      case False
      with ih(2) show ?thesis unfolding kv v debtorsOf_Cons cl by simp
    qed
    from c d show ?case by simp
  qed
  then show "grid_entries k (creditorsOf bal)" and "grid_entries k (debtorsOf bal)" by simp_all
qed

lemma grid_balances_sum:
  assumes "grid_balances k bal" and "k \<le> 6"
  shows "sum_list (map (\<lambda>kv. finite_val (snd kv)) bal)
       = amounts (creditorsOf bal) - amounts (debtorsOf bal)"
  using assms(1)
proof (induction bal)
  case Nil
  show ?case by (simp add: amounts_def)
next
  case (Cons kv bal)
  obtain key v where kv: "kv = (key, v)" by (cases kv)
  from Cons.prems have gv: "on_grid k v" and rest: "grid_balances k bal"
    by (simp_all add: kv grid_balances_def)
  from gv obtain b where v: "v = Num b" and db: "dyadic k b" using on_grid_Num by blast
  note ih = Cons.IH [OF rest]
  note cl = grid_classify [OF db assms(2)]
  show ?case
    unfolding kv v creditorsOf_Cons debtorsOf_Cons cl using ih
    by (simp add: amounts_def)
qed

lemma share_absent:
  assumes "key \<notin> fst ` set bal"
  shows "share (creditorsOf bal) key = 0" and "share (debtorsOf bal) key = 0"
proof -
  have "share (creditorsOf bal) key = 0 \<and> share (debtorsOf bal) key = 0"
    using assms
  proof (induction bal)
    case Nil
    show ?case by simp
  next
    case (Cons kv bal)
    obtain k' v where kv: "kv = (k', v)" by (cases kv)
    from Cons.prems have ne: "k' \<noteq> key" and "key \<notin> fst ` set bal" by (auto simp: kv)
    from Cons.IH [OF this(2)] ne show ?case
      unfolding kv creditorsOf_Cons debtorsOf_Cons by (simp add: share_Cons)
  qed
  then show "share (creditorsOf bal) key = 0" and "share (debtorsOf bal) key = 0" by simp_all
qed

lemma share_balance:
  assumes "distinct (map fst bal)" and "(key, Num b) \<in> set bal" and "dyadic k b" and "k \<le> 6"
  shows "share (creditorsOf bal) key - share (debtorsOf bal) key = b"
  using assms(1,2)
proof (induction bal)
  case Nil
  then show ?case by simp
next
  case (Cons kv bal)
  obtain k' v where kv: "kv = (k', v)" by (cases kv)
  from Cons.prems(1) have nk: "k' \<notin> fst ` set bal" and dist: "distinct (map fst bal)"
    by (simp_all add: kv)
  show ?case
  proof (cases "k' = key")
    case True
    with nk Cons.prems(2) have v: "v = Num b"
      by (auto simp: kv image_iff)
    from nk True have z: "share (creditorsOf bal) key = 0" "share (debtorsOf bal) key = 0"
      by (simp_all add: share_absent)
    note cl = grid_classify [OF assms(3,4)]
    show ?thesis unfolding kv v True creditorsOf_Cons debtorsOf_Cons cl
      by (simp add: share_Cons z)
  next
    case False
    with Cons.prems(2) have "(key, Num b) \<in> set bal" by (simp add: kv)
    from Cons.IH [OF dist this] False show ?thesis
      unfolding kv creditorsOf_Cons debtorsOf_Cons by (simp add: share_Cons)
  qed
qed

lemma sum_list_sortDesc:
  fixes f :: "entry \<Rightarrow> rat"
  shows "sum_list (map f (sortDesc xs)) = sum_list (map f xs)"
proof -
  have "mset (map f (sortDesc xs)) = mset (map f xs)"
    by (simp add: mset_sortDesc)
  then have "sum_mset (mset (map f (sortDesc xs))) = sum_mset (mset (map f xs))"
    by (simp only:)
  then show ?thesis by (simp only: sum_mset_sum_list)
qed

lemma share_sortDesc: "share (sortDesc xs) m = share xs m"
  unfolding share_def by (rule sum_list_sortDesc)

lemma amounts_sortDesc: "amounts (sortDesc xs) = amounts xs"
  unfolding amounts_def by (rule sum_list_sortDesc)

lemma grid_entries_sortDesc: "grid_entries k (sortDesc xs) = grid_entries k xs"
  by (simp add: grid_entries_def sortDesc_set)

lemma num_sum_finite:
  "\<forall>v\<in>set vs. \<exists>x. v = Num x \<Longrightarrow> num_sum vs = Some (sum_list (map finite_val vs))"
proof (induction vs)
  case Nil
  show ?case by simp
next
  case (Cons v vs)
  from Cons.prems obtain x where "v = Num x" by auto
  with Cons show ?case by simp
qed

lemma grid_exact_total:
  assumes "grid_balances k bal"
  shows "exact_total bal = Some (sum_list (map (\<lambda>kv. finite_val (snd kv)) bal))"
proof -
  have "\<forall>v\<in>set (map snd bal). \<exists>x. v = Num x"
    using assms on_grid_Num by (fastforce simp: grid_balances_def)
  from num_sum_finite [OF this] show ?thesis
    by (simp add: exact_total_def comp_def)
qed

lemma received_recv:
  assumes "\<forall>s\<in>set ss. \<exists>x. s_amount s = Num x"
  shows "received ss m = Some (recv ss m)" and "paid ss m = Some (pd ss m)"
proof -
  have f: "sum_list (map finite_val (map s_amount (filter P ss)))
      = sum_list (map (\<lambda>s. if P s then finite_val (s_amount s) else 0) ss)" for P
    by (induction ss) simp_all
  have "\<forall>v\<in>set (map s_amount (filter (\<lambda>s. s_toId s = m) ss)). \<exists>x. v = Num x"
    using assms by auto
  from num_sum_finite [OF this] show "received ss m = Some (recv ss m)"
    by (simp only: received_def recv_def f)
  have "\<forall>v\<in>set (map s_amount (filter (\<lambda>s. s_fromId s = m) ss)). \<exists>x. v = Num x"
    using assms by auto
  from num_sum_finite [OF this] show "paid ss m = Some (pd ss m)"
    by (simp only: paid_def pd_def f)
qed

section \<open>Example settlements and submissions\<close>

lemma cents_06: "round_double (3 / 50) = Num (1080863910568919 / 18014398509481984)"
  using round_double_cert [where x = "3 / 50" and e = "- 57" and m = 8646911284551352]
  by (simp add: pow2_def)

lemma cents_02: "round_double (1 / 50) = Num (5764607523034235 / 288230376151711744)"
  using round_double_cert [where x = "1 / 50" and e = "- 58" and m = 5764607523034235]
  by (simp add: pow2_def)

lemma cents_05: "round_double (1 / 20) = Num (3602879701896397 / 72057594037927936)"
  using round_double_cert [where x = "1 / 20" and e = "- 57" and m = 7205759403792794]
  by (simp add: pow2_def)

lemma cents_03: "round_double (3 / 100) = Num (1080863910568919 / 36028797018963968)"
  using round_double_cert [where x = "3 / 100" and e = "- 58" and m = 8646911284551352]
  by (simp add: pow2_def)

lemma cents_m05: "round_double (- (1 / 20)) = Num (- (3602879701896397 / 72057594037927936))"
  using round_double_cert_neg [where x = "1 / 20" and e = "- 57" and m = 7205759403792794]
  by (simp add: pow2_def)

lemma cents_m03: "round_double (- (3 / 100)) = Num (- (1080863910568919 / 36028797018963968))"
  using round_double_cert_neg [where x = "3 / 100" and e = "- 58" and m = 8646911284551352]
  by (simp add: pow2_def)

lemma cents_1: "round_double (720575940379279 / 72057594037927936) = Num (720575940379279 / 72057594037927936)"
  using round_double_cert [where x = "720575940379279 / 72057594037927936" and e = "- 59" and m = 5764607523034232]
  by (simp add: pow2_def)

lemma cents_2: "round_double (2882303761517117 / 288230376151711744) = Num (2882303761517117 / 288230376151711744)"
  using round_double_cert [where x = "2882303761517117 / 288230376151711744" and e = "- 59" and m = 5764607523034234]
  by (simp add: pow2_def)

lemma cents_3: "round_double (- (11529215046068469 / 288230376151711744)) = Num (- (2882303761517117 / 72057594037927936))"
  using round_double_cert_neg [where x = "11529215046068469 / 288230376151711744" and e = "- 57" and m = 5764607523034234]
  by (simp add: pow2_def)

lemma cents_4: "round_double (- (1441151880758559 / 72057594037927936)) = Num (- (1441151880758559 / 72057594037927936))"
  using round_double_cert_neg [where x = "1441151880758559 / 72057594037927936" and e = "- 58" and m = 5764607523034236]
  by (simp add: pow2_def)

lemma cents_settle:
  "settleDebts [(''A'', round_double (6 / 100)), (''B'', round_double (2 / 100)),
                (''C'', round_double (- (5 / 100))), (''D'', round_double (- (3 / 100)))] demo_quad
     = Some (Inr [\<lparr> s_from = ''Cy'', s_fromId = ''C'', s_to = ''Ann'', s_toId = ''A'',
                     s_amount = Num (3602879701896397 / 72057594037927936) \<rparr>,
                  \<lparr> s_from = ''Dee'', s_fromId = ''D'', s_to = ''Bob'', s_toId = ''B'',
                     s_amount = Num (5764607523034235 / 288230376151711744) \<rparr>])"
  using cents_06 cents_02 cents_m05 cents_m03 cents_1 cents_2 cents_3 cents_4
  by (simp add: demo_quad_def settleDebts_def classify_def sortDesc_def
        settle_loop.simps settle_body_def js_eval)

lemma band_settle:
  "settleDebts [(''A'', Num (1 / 256)), (''B'', Num (- (1 / 256)))] demo_group = Some (Inr [])"
  by (simp add: settleDebts_def classify_def sortDesc_def settle_loop.simps js_eval)

lemma mint_1: "round_double (1 / 50) = Num (5764607523034235 / 288230376151711744)"
  using round_double_cert [where x = "1 / 50" and e = "- 58" and m = 5764607523034235]
  by (simp add: pow2_def)

lemma mint_2: "round_double (1 / 200) = Num (5764607523034235 / 1152921504606846976)"
  using round_double_cert [where x = "1 / 200" and e = "- 60" and m = 5764607523034235]
  by (simp add: pow2_def)

lemma mint_3: "round_double (49999999999999999 / 10000000000000000000) = Num (5764607523034235 / 1152921504606846976)"
  using round_double_cert [where x = "49999999999999999 / 10000000000000000000" and e = "- 60" and m = 5764607523034235]
  by (simp add: pow2_def)

lemma mint_4: "round_double (5764607523034235 / 1152921504606846976) = Num (5764607523034235 / 1152921504606846976)"
  using round_double_cert [where x = "5764607523034235 / 1152921504606846976" and e = "- 60" and m = 5764607523034235]
  by (simp add: pow2_def)

lemma mint_5: "round_double (5764607523034235 / 576460752303423488) = Num (5764607523034235 / 576460752303423488)"
  using round_double_cert [where x = "5764607523034235 / 576460752303423488" and e = "- 59" and m = 5764607523034235]
  by (simp add: pow2_def)

lemma mint_submit:
  "AddExpenseModal_handleSubmit ''e1'' ''t1'' pair_store demo_pair ''Mint'' (Some (2 / 100)) ''A''
      ''custom'' [\<lparr> cs_memberId = ''A'', cs_amount = Some (5 / 1000) \<rparr>,
                  \<lparr> cs_memberId = ''B'', cs_amount = Some (49999999999999999 / 10 ^ 19) \<rparr>]
     = (None, Inr mint_store)"
proof -
  have v: "validateCustomSplits (Some (2 / 100))
      [\<lparr> cs_memberId = ''A'', cs_amount = Some (5 / 1000) \<rparr>,
       \<lparr> cs_memberId = ''B'', cs_amount = Some (49999999999999999 / 10 ^ 19) \<rparr>] = None"
    using mint_1 mint_2 mint_3 mint_4 mint_5
    by (simp add: validateCustomSplits_def splitTotal_def js_or_zero_def js_eval)
  show ?thesis
    using mint_1 mint_2 mint_3 v
    by (simp add: AddExpenseModal_handleSubmit_def trim_def js_whitespace_def addExpense_def
        pair_store_def demo_pair_def mint_store_def)
qed

lemma refund_share: "round_double (- (5 / 3)) = Num (- (7505999378950827 / 4503599627370496))"
  using round_double_cert_neg [where x = "5 / 3" and e = "- 52" and m = 7505999378950827]
  by (simp add: pow2_def)

lemma huge_submit:
  "AddExpenseModal_handleSubmit i ''t1'' (huge_store is) demo_pair ''Yacht''
      (Some (3 * 2 ^ 1022)) ''A'' ''equal'' [] = (None, Inr (huge_store (is @ [i])))"
proof -
  have t: "trim ''Yacht'' \<noteq> []" by (simp add: trim_def js_whitespace_def)
  have pf: "parseFloat (Some (3 * 2 ^ 1022)) = Num (3 * 2 ^ 1022)"
    unfolding parseFloat.simps by (rule huge_sums(1))
  have gid: "group_id demo_pair = ''p''" by (simp add: demo_pair_def)
  have "AddExpenseModal_handleSubmit i ''t1'' (huge_store is) demo_pair ''Yacht''
      (Some (3 * 2 ^ 1022)) ''A'' ''equal'' []
      = (None, addExpense i ''t1'' (huge_store is) (group_id demo_pair) ''Yacht''
                 (parseFloat (Some (3 * 2 ^ 1022))) ''A'' ''equal'' [])"
    using t by (simp add: AddExpenseModal_handleSubmit_def)
  then show ?thesis unfolding pf gid huge_add .
qed

section \<open>Claims\<close>




text \<open>
  C2. Let the keys of the balance object be distinct ids of members of the group, let
  every balance be finite, a whole multiple of one power of two \<open>2 ^ - k\<close> with \<open>k\<close> at
  most 6 (whole numbers, halves, quarters, down to 64ths) and of magnitude at most
  \<open>2 ^ 53 * 2 ^ - k\<close>, and let the balances add up to 0. Then \<open>settleDebts\<close> returns,
  every amount it emits is finite, and for every member what the settlements give that
  member less what they take is exactly the member's balance.
\<close>

theorem settleDebts_reconstructs:
  assumes keys: "distinct (map fst balances)"
    and mem: "fst ` set balances \<subseteq> member_id ` set (members grp)"
    and k: "k \<le> 6" and grid: "grid_balances k balances"
    and zero: "exact_total balances = Some 0"
  shows "\<exists>ss. settleDebts balances grp = Some (Inr ss)
           \<and> (\<forall>kv\<in>set balances. \<exists>r p. received ss (fst kv) = Some r \<and> paid ss (fst kv) = Some p
                  \<and> snd kv = Num (r - p))"
proof -
  let ?cs = "sortDesc (creditorsOf balances)" and ?ds = "sortDesc (debtorsOf balances)"
  have "set (map entry_memberId (creditorsOf balances)) \<subseteq> fst ` set balances"
    unfolding creditorsOf_ids by auto
  with mem have c: "entry_memberId ` set ?cs \<subseteq> member_id ` set (members grp)"
    by (simp add: sortDesc_set)
  have "set (map entry_memberId (debtorsOf balances)) \<subseteq> fst ` set balances"
    unfolding debtorsOf_ids by auto
  with mem have d: "entry_memberId ` set ?ds \<subseteq> member_id ` set (members grp)"
    by (simp add: sortDesc_set)
  have ce: "grid_entries k (drop 0 ?cs)" and de: "grid_entries k (drop 0 ?ds)"
    using grid_balances_entries [OF grid k] by (simp_all add: grid_entries_sortDesc)
  from grid_exact_total [OF grid] zero
  have "sum_list (map (\<lambda>kv. finite_val (snd kv)) balances) = 0" by simp
  with grid_balances_sum [OF grid k]
  have "amounts (creditorsOf balances) = amounts (debtorsOf balances)" by simp
  then have eq: "amounts (drop 0 ?cs) = amounts (drop 0 ?ds)"
    by (simp add: amounts_sortDesc)
  have fo: "\<forall>s\<in>set ([] :: settlement list). \<exists>x. s_amount s = Num x" by simp
  from settle_loop_exact [OF k c d ce de eq fo] obtain ss where
    run: "settle_loop (members grp) ?cs ?ds 0 0 [] = Some (Inr ss)"
    and fin: "\<forall>s\<in>set ss. \<exists>x. s_amount s = Num x"
    and val: "\<forall>m. recv ss m - pd ss m
        = recv [] m - pd [] m + share (drop 0 ?cs) m - share (drop 0 ?ds) m"
    by blast
  have "\<exists>r p. received ss (fst kv) = Some r \<and> paid ss (fst kv) = Some p \<and> snd kv = Num (r - p)"
    if kv: "kv \<in> set balances" for kv
  proof -
    obtain key v where p: "kv = (key, v)" by (cases kv)
    from grid kv have "on_grid k v" by (auto simp: p grid_balances_def)
    then obtain b where v: "v = Num b" and db: "dyadic k b" using on_grid_Num by blast
    from kv have "(key, Num b) \<in> set balances" by (simp add: p v)
    from share_balance [OF keys this db k]
    have "share (creditorsOf balances) key - share (debtorsOf balances) key = b" .
    moreover from val have "recv ss key - pd ss key
        = recv [] key - pd [] key + share (drop 0 ?cs) key - share (drop 0 ?ds) key"
      by blast
    ultimately have "recv ss key - pd ss key = b"
      by (simp add: share_sortDesc recv_def pd_def)
    with received_recv [OF fin, of key] show ?thesis
      by (simp add: p v)
  qed
  with run show ?thesis
    by (simp add: settleDebts_unfold)
qed

theorem settleDebts_reconstructs_witness:
  "distinct (map fst demo_quarters)
   \<and> fst ` set demo_quarters \<subseteq> member_id ` set (members demo_group)
   \<and> grid_balances 2 demo_quarters \<and> exact_total demo_quarters = Some 0
   \<and> (\<exists>ss. settleDebts demo_quarters demo_group = Some (Inr ss)
          \<and> (\<forall>kv\<in>set demo_quarters. \<exists>r p. received ss (fst kv) = Some r
                 \<and> paid ss (fst kv) = Some p \<and> snd kv = Num (r - p)))"
proof -
  have d: "distinct (map fst demo_quarters)" by (simp add: demo_quarters_def)
  have m: "fst ` set demo_quarters \<subseteq> member_id ` set (members demo_group)"
    by (simp add: demo_quarters_def demo_group_def)
  have k: "(2::nat) \<le> 6" by simp
  have g: "grid_balances 2 demo_quarters"
    by (simp add: grid_balances_def demo_quarters_def dyadic_def)
  have z: "exact_total demo_quarters = Some 0"
    by (simp add: exact_total_def demo_quarters_def)
  from settleDebts_reconstructs [OF d m k g z] d m g z show ?thesis
    by (intro conjI)
qed

text \<open>
  A balance inside the band takes part in no settlement and is not reconstructed. Nor
  are whole cents outside the band in general: with 0.06, 0.02, -0.05 and -0.03 the
  first payment of 0.05 leaves 0.06 - 0.05, which in binary64 is below 0.01, the cursor
  moves on, and the first member receives 0.05 for a balance of 0.06.
\<close>

theorem settleDebts_reconstruction_counterexample:
  "settleDebts [(''A'', Num (1 / 256)), (''B'', Num (- (1 / 256)))] demo_group = Some (Inr [])
   \<and> received [] ''A'' = Some 0 \<and> paid [] ''A'' = Some 0 \<and> Num (1 / 256) \<noteq> Num (0 - 0)
   \<and> settleDebts [(''A'', round_double (6 / 100)), (''B'', round_double (2 / 100)),
                  (''C'', round_double (- (5 / 100))), (''D'', round_double (- (3 / 100)))] demo_quad
       = Some (Inr [\<lparr> s_from = ''Cy'', s_fromId = ''C'', s_to = ''Ann'', s_toId = ''A'',
                       s_amount = Num (3602879701896397 / 72057594037927936) \<rparr>,
                    \<lparr> s_from = ''Dee'', s_fromId = ''D'', s_to = ''Bob'', s_toId = ''B'',
                       s_amount = Num (5764607523034235 / 288230376151711744) \<rparr>])
   \<and> received [\<lparr> s_from = ''Cy'', s_fromId = ''C'', s_to = ''Ann'', s_toId = ''A'',
                       s_amount = Num (3602879701896397 / 72057594037927936) \<rparr>,
                 \<lparr> s_from = ''Dee'', s_fromId = ''D'', s_to = ''Bob'', s_toId = ''B'',
                       s_amount = Num (5764607523034235 / 288230376151711744) \<rparr>] ''A''
       = Some (3602879701896397 / 72057594037927936)
   \<and> paid [\<lparr> s_from = ''Cy'', s_fromId = ''C'', s_to = ''Ann'', s_toId = ''A'',
                       s_amount = Num (3602879701896397 / 72057594037927936) \<rparr>,
             \<lparr> s_from = ''Dee'', s_fromId = ''D'', s_to = ''Bob'', s_toId = ''B'',
                       s_amount = Num (5764607523034235 / 288230376151711744) \<rparr>] ''A''
       = Some 0
   \<and> round_double (6 / 100) \<noteq> Num (3602879701896397 / 72057594037927936 - 0)"
proof -
  have r: "received [] ''A'' = Some 0" "paid [] ''A'' = Some 0"
    "received [\<lparr> s_from = ''Cy'', s_fromId = ''C'', s_to = ''Ann'', s_toId = ''A'',
                       s_amount = Num (3602879701896397 / 72057594037927936) \<rparr>,
                 \<lparr> s_from = ''Dee'', s_fromId = ''D'', s_to = ''Bob'', s_toId = ''B'',
                       s_amount = Num (5764607523034235 / 288230376151711744) \<rparr>] ''A''
       = Some (3602879701896397 / 72057594037927936)"
    "paid [\<lparr> s_from = ''Cy'', s_fromId = ''C'', s_to = ''Ann'', s_toId = ''A'',
                       s_amount = Num (3602879701896397 / 72057594037927936) \<rparr>,
             \<lparr> s_from = ''Dee'', s_fromId = ''D'', s_to = ''Bob'', s_toId = ''B'',
                       s_amount = Num (5764607523034235 / 288230376151711744) \<rparr>] ''A''
       = Some 0"
    by (simp_all add: received_def paid_def)
  have n: "Num (1 / 256) \<noteq> Num (0 - 0)" by simp
  have "round_double (6 / 100) \<noteq> Num (3602879701896397 / 72057594037927936 - 0)"
    using cents_06 by simp
  with band_settle r n cents_settle show ?thesis by (intro conjI)
qed

text \<open>
  C3. Every settlement in a list that \<open>settleDebts\<close> returns has an amount above 0, and
  its sender id and name, and its receiver id and name, are those of members of the
  group given. (When an id of a creditor or debtor belongs to no member the function
  throws and returns no list.)
\<close>

theorem settleDebts_emits_valid:
  assumes "settleDebts balances grp = Some (Inr ss)" and "s \<in> set ss"
  shows "js_gt (s_amount s) (Num 0)
    \<and> (\<exists>m\<in>set (members grp). member_id m = s_fromId s \<and> member_name m = s_from s)
    \<and> (\<exists>m\<in>set (members grp). member_id m = s_toId s \<and> member_name m = s_to s)"
proof -
  from settleDebts_settlements [OF assms(1)] assms(2)
  have ok: "settlement_ok (members grp) (entry_memberId ` set (creditorsOf balances))
            (entry_memberId ` set (debtorsOf balances)) s"
    by blast
  then have "js_le tolerance (s_amount s)" by (simp only: settlement_ok_def)
  then have "js_gt (s_amount s) (Num 0)" by (rule js_le_tolerance_pos)
  with ok show ?thesis by (simp only: settlement_ok_def)
qed

theorem settleDebts_emits_valid_witness:
  "settleDebts demo_balances demo_group
     = Some (Inr [\<lparr> s_from = ''Bob'', s_fromId = ''B'', s_to = ''Ann'', s_toId = ''A'', s_amount = Num 30 \<rparr>,
            \<lparr> s_from = ''Cy'', s_fromId = ''C'', s_to = ''Ann'', s_toId = ''A'', s_amount = Num 30 \<rparr>])
   \<and> js_gt (s_amount demo_settlement) (Num 0)
   \<and> (\<exists>m\<in>set (members demo_group). member_id m = s_fromId demo_settlement
         \<and> member_name m = s_from demo_settlement)
   \<and> (\<exists>m\<in>set (members demo_group). member_id m = s_toId demo_settlement
         \<and> member_name m = s_to demo_settlement)"
  using settleDebts_emits_valid [OF demo_settle demo_settlement_emitted] demo_settle
  by simp

text \<open>
  C4. The loop of \<open>settleDebts\<close> does not end on every balance object. Three expenses of
  \<open>3 * 2 ^ 1022\<close> (about 1.35e308), entered in the form, paid by Ann and split equally
  between Ann and Bob, make the balances \<^verbatim>\<open>Infinity\<close> and \<^verbatim>\<open>-Infinity\<close>; on these the
  first payment is \<^verbatim>\<open>Infinity\<close>, both remainders become \<^verbatim>\<open>NaN\<close>, no cursor moves, and
  \<open>settleDebts\<close> never returns.
\<close>

theorem settleDebts_runs_forever:
  "AddExpenseModal_handleSubmit ''e1'' ''t1'' (huge_store []) demo_pair ''Yacht''
      (Some (3 * 2 ^ 1022)) ''A'' ''equal'' [] = (None, Inr (huge_store [''e1'']))
   \<and> AddExpenseModal_handleSubmit ''e2'' ''t1'' (huge_store [''e1'']) demo_pair ''Yacht''
      (Some (3 * 2 ^ 1022)) ''A'' ''equal'' [] = (None, Inr (huge_store [''e1'', ''e2'']))
   \<and> AddExpenseModal_handleSubmit ''e3'' ''t1'' (huge_store [''e1'', ''e2'']) demo_pair ''Yacht''
      (Some (3 * 2 ^ 1022)) ''A'' ''equal'' [] = (None, Inr (huge_store [''e1'', ''e2'', ''e3'']))
   \<and> calculateBalances (huge_store [''e1'', ''e2'', ''e3'']) ''p'' = [(''A'', PInf), (''B'', NInf)]
   \<and> settleDebts (calculateBalances (huge_store [''e1'', ''e2'', ''e3'']) ''p'') demo_pair = None"
proof -
  have l: "settleDebts (calculateBalances (huge_store [''e1'', ''e2'', ''e3'']) ''p'') demo_pair = None"
    unfolding huge_balances by (rule infinite_balances_loop)
  from huge_submit [of "''e1''" "[]"] huge_submit [of "''e2''" "[''e1'']"]
    huge_submit [of "''e3''" "[''e1'', ''e2'']"] huge_balances l
  show ?thesis by simp
qed

text \<open>
  C5. In a group of the three members a, b, c (distinct ids) with no expense or payment
  so far, \<open>addExpense\<close> of "Dinner", 90, paid by a, split equally, succeeds; afterwards
  \<open>calculateBalances\<close> gives a: 60, b: -30, c: -30, and \<open>settleDebts\<close> on these balances
  returns exactly the two settlements b to a 30 and c to a 30, in this order.
\<close>

theorem dinner_equal_split:
  assumes g: "find (\<lambda>x. group_id x = gid) (groups st) = Some g"
    and ms: "members g = [a, b, c]"
    and d: "distinct [member_id a, member_id b, member_id c]"
    and ne: "filter (\<lambda>e. exp_groupId e = gid) (expenses st) = []"
    and np: "filter (\<lambda>p. pay_groupId p = gid) (payments st) = []"
  shows "\<exists>st'. addExpense newId now st gid ''Dinner'' (Num 90) (member_id a) ''equal'' [] = Inr st'
     \<and> calculateBalances st' gid
         = [(member_id a, Num 60), (member_id b, Num (- 30)), (member_id c, Num (- 30))]
     \<and> settleDebts (calculateBalances st' gid) g
         = Some (Inr [\<lparr> s_from = member_name b, s_fromId = member_id b,
                  s_to = member_name a, s_toId = member_id a, s_amount = Num 30 \<rparr>,
                \<lparr> s_from = member_name c, s_fromId = member_id c,
                  s_to = member_name a, s_toId = member_id a, s_amount = Num 30 \<rparr>])"
proof -
  define e where "e = \<lparr> exp_id = newId, exp_groupId = gid, exp_description = ''Dinner'',
      exp_amount = Num 90, exp_paidBy = member_id a,
      exp_splits = [\<lparr> split_memberId = member_id a, split_amount = Num 30 \<rparr>,
                    \<lparr> split_memberId = member_id b, split_amount = Num 30 \<rparr>,
                    \<lparr> split_memberId = member_id c, split_amount = Num 30 \<rparr>],
      exp_splitType = ''equal'', exp_date = now \<rparr>"
  define st' where "st' = st \<lparr> expenses := expenses st @ [e] \<rparr>"
  from d have ne_ids: "member_id a \<noteq> member_id b" "member_id a \<noteq> member_id c"
    "member_id b \<noteq> member_id c" "member_id b \<noteq> member_id a" "member_id c \<noteq> member_id a"
    "member_id c \<noteq> member_id b"
    by auto
  have add: "addExpense newId now st gid ''Dinner'' (Num 90) (member_id a) ''equal'' [] = Inr st'"
    by (simp add: addExpense_def g ms st'_def e_def js_eval)
  have init: "initBalances [a, b, c] = [(member_id a, Num 0), (member_id b, Num 0), (member_id c, Num 0)]"
    using ne_ids by (simp add: initBalances_def obj_set_def)
  have app: "applyExpense [(member_id a, Num 0), (member_id b, Num 0), (member_id c, Num 0)] e
      = [(member_id a, Num 60), (member_id b, Num (- 30)), (member_id c, Num (- 30))]"
    using ne_ids by (simp add: applyExpense_def e_def obj_add_def obj_sub_def obj_set_def js_eval)
  have bal: "calculateBalances st' gid
      = [(member_id a, Num 60), (member_id b, Num (- 30)), (member_id c, Num (- 30))]"
    by (simp add: calculateBalances_def st'_def g ms ne np init app e_def [symmetric])
      (simp add: e_def app [unfolded e_def])
  have settle: "settleDebts [(member_id a, Num 60), (member_id b, Num (- 30)), (member_id c, Num (- 30))] g
      = Some (Inr [\<lparr> s_from = member_name b, s_fromId = member_id b,
                  s_to = member_name a, s_toId = member_id a, s_amount = Num 30 \<rparr>,
             \<lparr> s_from = member_name c, s_fromId = member_id c,
                  s_to = member_name a, s_toId = member_id a, s_amount = Num 30 \<rparr>])"
    using ne_ids
    by (simp add: settleDebts_def classify_def sortDesc_def settle_loop.simps settle_body_def ms js_eval)
  from add bal settle show ?thesis by simp
qed

theorem dinner_equal_split_witness:
  "\<exists>st'. addExpense ''e1'' ''t1'' demo_store ''g'' ''Dinner'' (Num 90) ''A'' ''equal'' [] = Inr st'
     \<and> calculateBalances st' ''g'' = [(''A'', Num 60), (''B'', Num (- 30)), (''C'', Num (- 30))]
     \<and> settleDebts (calculateBalances st' ''g'') demo_group
         = Some (Inr [\<lparr> s_from = ''Bob'', s_fromId = ''B'', s_to = ''Ann'', s_toId = ''A'', s_amount = Num 30 \<rparr>,
                \<lparr> s_from = ''Cy'', s_fromId = ''C'', s_to = ''Ann'', s_toId = ''A'', s_amount = Num 30 \<rparr>])"
proof -
  let ?a = "\<lparr> member_name = ''Ann'', member_id = ''A'' \<rparr>"
  let ?b = "\<lparr> member_name = ''Bob'', member_id = ''B'' \<rparr>"
  let ?c = "\<lparr> member_name = ''Cy'', member_id = ''C'' \<rparr>"
  have g: "find (\<lambda>x. group_id x = ''g'') (groups demo_store) = Some demo_group"
    by (simp add: demo_store_def demo_group_def)
  have ms: "members demo_group = [?a, ?b, ?c]" by (simp add: demo_group_def)
  have d: "distinct [member_id ?a, member_id ?b, member_id ?c]" by simp
  have ne: "filter (\<lambda>e. exp_groupId e = ''g'') (expenses demo_store) = []"
    by (simp add: demo_store_def)
  have np: "filter (\<lambda>p. pay_groupId p = ''g'') (payments demo_store) = []"
    by (simp add: demo_store_def)
  from dinner_equal_split [OF g ms d ne np, of "''e1''" "''t1''"] show ?thesis by simp
qed

text \<open>
  C6. The member list of the dialog built by \<open>addMember\<close> from the names typed is these
  names trimmed, without the empty ones and without repetitions.
  \<open>AddGroupModal.handleSubmit\<close> leaves the store (and the ids drawn) as they are when
  the group name is empty after trimming or that list has fewer than 2 entries; no error
  value is produced. Otherwise it appends exactly one group: the name as typed, the
  member names in order, the group id and the member ids the next results of the id
  generator. When the generator never repeats a result and every id in the store is one
  of its earlier results, the new ids are pairwise distinct and differ from every id in
  the store, and every id of the new store is again an earlier result.
\<close>

theorem AddGroupModal_handleSubmit_cases:
  assumes ms: "ms = foldl addMember [] inputs"
  shows "ms = dedup (filter (\<lambda>s. s \<noteq> []) (map trim inputs))
   \<and> (trim name = [] \<or> length ms < 2 \<longrightarrow>
        AddGroupModal_handleSubmit uuid n now st name ms = (st, n))
   \<and> (trim name \<noteq> [] \<and> 2 \<le> length ms \<longrightarrow>
        (\<exists>g. AddGroupModal_handleSubmit uuid n now st name ms
                = (st \<lparr> groups := groups st @ [g] \<rparr>, Suc (n + length ms))
           \<and> group_id g = uuid n \<and> group_name g = name \<and> createdAt g = now
           \<and> map member_name (members g) = ms
           \<and> map member_id (members g) = map (\<lambda>k. uuid (Suc (n + k))) [0..<length ms]
           \<and> (inj uuid \<and> used_ids st \<subseteq> uuid ` {..<n} \<longrightarrow>
                distinct (group_id g # map member_id (members g))
                \<and> set (group_id g # map member_id (members g)) \<inter> used_ids st = {}
                \<and> used_ids (st \<lparr> groups := groups st @ [g] \<rparr>)
                     \<subseteq> uuid ` {..<Suc (n + length ms)})))"
proof (intro conjI impI)
  show "ms = dedup (filter (\<lambda>s. s \<noteq> []) (map trim inputs))"
    unfolding ms foldl_addMember by simp
next
  assume "trim name = [] \<or> length ms < 2"
  then show "AddGroupModal_handleSubmit uuid n now st name ms = (st, n)"
    by (auto simp: AddGroupModal_handleSubmit_def)
next
  assume ok: "trim name \<noteq> [] \<and> 2 \<le> length ms"
  define g where "g = \<lparr> group_id = uuid n, group_name = name,
      members = map (\<lambda>(k, m). \<lparr> member_name = m, member_id = uuid (Suc (n + k)) \<rparr>) (enumerate 0 ms),
      createdAt = now \<rparr>"
  have run: "AddGroupModal_handleSubmit uuid n now st name ms
      = (st \<lparr> groups := groups st @ [g] \<rparr>, Suc (n + length ms))"
    using ok by (simp add: AddGroupModal_handleSubmit_def addGroup_def g_def)
  have names: "map member_name (members g) = ms"
    by (simp add: g_def comp_def case_prod_unfold)
  have ids: "map member_id (members g) = map (\<lambda>k. uuid (Suc (n + k))) [0..<length ms]"
  proof -
    have "map member_id (members g) = map (\<lambda>x. uuid (Suc (n + fst x))) (enumerate 0 ms)"
      by (simp add: g_def comp_def case_prod_unfold)
    also have "\<dots> = map (\<lambda>k. uuid (Suc (n + k))) (map fst (enumerate 0 ms))"
      by (simp only: map_map comp_def)
    also have "\<dots> = map (\<lambda>k. uuid (Suc (n + k))) [0..<length ms]"
      by (simp only: map_fst_enumerate add_0)
    finally show ?thesis .
  qed
  have new: "group_id g # map member_id (members g) = map uuid [n..<Suc (n + length ms)]"
  proof -
    have "map (\<lambda>k. uuid (Suc (n + k))) [0..<length ms] = map uuid (map (\<lambda>k. Suc (n + k)) [0..<length ms])"
      by simp
    also have "map (\<lambda>k. Suc (n + k)) [0..<length ms] = [Suc n..<Suc n + length ms]"
      by (induction ms rule: rev_induct) simp_all
    finally have "map member_id (members g) = map uuid [Suc n..<Suc (n + length ms)]"
      by (simp add: ids)
    moreover have "[n..<Suc (n + length ms)] = n # [Suc n..<Suc (n + length ms)]"
      by (simp add: upt_rec)
    ultimately show ?thesis by (simp add: g_def)
  qed
  have fresh: "distinct (group_id g # map member_id (members g))
      \<and> set (group_id g # map member_id (members g)) \<inter> used_ids st = {}
      \<and> used_ids (st \<lparr> groups := groups st @ [g] \<rparr>) \<subseteq> uuid ` {..<Suc (n + length ms)}"
    if h: "inj uuid \<and> used_ids st \<subseteq> uuid ` {..<n}"
  proof (intro conjI)
    from h have inj: "inj uuid" and old: "used_ids st \<subseteq> uuid ` {..<n}" by simp_all
    have "inj_on uuid (set [n..<Suc (n + length ms)])"
      using inj by (rule inj_on_subset) simp
    then have "distinct (map uuid [n..<Suc (n + length ms)])"
      by (simp only: distinct_map distinct_upt simp_thms)
    then show "distinct (group_id g # map member_id (members g))"
      by (simp only: new)
    show "set (group_id g # map member_id (members g)) \<inter> used_ids st = {}"
    proof (rule ccontr)
      assume "set (group_id g # map member_id (members g)) \<inter> used_ids st \<noteq> {}"
      then obtain x where x: "x \<in> set (map uuid [n..<Suc (n + length ms)])" "x \<in> used_ids st"
        unfolding new by blast
      from x(1) obtain k where k: "x = uuid k" "n \<le> k" by auto
      from x(2) old obtain l where l: "x = uuid l" "l < n" by auto
      from k(1) l(1) inj have "k = l" by (simp add: inj_eq)
      with k(2) l(2) show False by simp
    qed
    have "used_ids (st \<lparr> groups := groups st @ [g] \<rparr>)
        = used_ids st \<union> set (group_id g # map member_id (members g))"
      by (auto simp: used_ids_def)
    also have "\<dots> \<subseteq> uuid ` {..<n} \<union> uuid ` {n..<Suc (n + length ms)}"
      unfolding new using old by auto
    also have "\<dots> \<subseteq> uuid ` {..<Suc (n + length ms)}" by auto
    finally show "used_ids (st \<lparr> groups := groups st @ [g] \<rparr>) \<subseteq> uuid ` {..<Suc (n + length ms)}" .
  qed
  have imp: "inj uuid \<and> used_ids st \<subseteq> uuid ` {..<n} \<longrightarrow>
                distinct (group_id g # map member_id (members g))
                \<and> set (group_id g # map member_id (members g)) \<inter> used_ids st = {}
                \<and> used_ids (st \<lparr> groups := groups st @ [g] \<rparr>)
                     \<subseteq> uuid ` {..<Suc (n + length ms)}"
    by (rule impI) (rule fresh)
  have gid: "group_id g = uuid n" and gname: "group_name g = name" and gnow: "createdAt g = now"
    by (simp_all add: g_def)
  show "\<exists>g. AddGroupModal_handleSubmit uuid n now st name ms
                = (st \<lparr> groups := groups st @ [g] \<rparr>, Suc (n + length ms))
           \<and> group_id g = uuid n \<and> group_name g = name \<and> createdAt g = now
           \<and> map member_name (members g) = ms
           \<and> map member_id (members g) = map (\<lambda>k. uuid (Suc (n + k))) [0..<length ms]
           \<and> (inj uuid \<and> used_ids st \<subseteq> uuid ` {..<n} \<longrightarrow>
                distinct (group_id g # map member_id (members g))
                \<and> set (group_id g # map member_id (members g)) \<inter> used_ids st = {}
                \<and> used_ids (st \<lparr> groups := groups st @ [g] \<rparr>)
                     \<subseteq> uuid ` {..<Suc (n + length ms)})"
    by (intro exI [of _ g] conjI) (rule run gid gname gnow names ids imp)+
qed

theorem AddGroupModal_handleSubmit_witness:
  "foldl addMember [] [''OnlyOne''] = [''OnlyOne'']
   \<and> AddGroupModal_handleSubmit demo_uuid 0 ''t1'' empty_store ''Solo'' [''OnlyOne'']
       = (empty_store, 0)
   \<and> foldl addMember [] ['' A'', ''B '', '' '', ''A''] = [''A'', ''B'']
   \<and> inj demo_uuid \<and> used_ids empty_store \<subseteq> demo_uuid ` {..<0}
   \<and> (\<exists>g. AddGroupModal_handleSubmit demo_uuid 0 ''t1'' empty_store ''Pair'' [''A'', ''B'']
             = (empty_store \<lparr> groups := groups empty_store @ [g] \<rparr>, 3)
          \<and> group_id g = ''u'' \<and> group_name g = ''Pair''
          \<and> map member_name (members g) = [''A'', ''B'']
          \<and> map member_id (members g) = [''uu'', ''uuu'']
          \<and> distinct (group_id g # map member_id (members g))
          \<and> set (group_id g # map member_id (members g)) \<inter> used_ids empty_store = {}
          \<and> used_ids (empty_store \<lparr> groups := groups empty_store @ [g] \<rparr>) \<subseteq> demo_uuid ` {..<3})"
proof -
  have t: "trim ''Pair'' \<noteq> [] \<and> trim ''Solo'' \<noteq> []"
    by (simp add: trim_def js_whitespace_def)
  have u: "[0..<2] = [0, Suc 0]" by (simp add: upt_rec)
  have one: "foldl addMember [] [''OnlyOne''] = [''OnlyOne'']"
    by (simp add: addMember_def trim_def js_whitespace_def)
  have two: "foldl addMember [] ['' A'', ''B '', '' '', ''A''] = [''A'', ''B'']"
    by (simp add: addMember_def trim_def js_whitespace_def)
  have e: "used_ids empty_store \<subseteq> demo_uuid ` {..<0}"
    by (simp add: used_ids_def empty_store_def)
  from AddGroupModal_handleSubmit_cases [OF one [symmetric], of "''Solo''" demo_uuid 0 "''t1''" empty_store,
      THEN conjunct2, THEN conjunct1]
  have solo: "AddGroupModal_handleSubmit demo_uuid 0 ''t1'' empty_store ''Solo'' [''OnlyOne'']
       = (empty_store, 0)"
    by simp
  from AddGroupModal_handleSubmit_cases [OF two [symmetric], of "''Pair''" demo_uuid 0 "''t1''" empty_store,
      THEN conjunct2, THEN conjunct2]
    t demo_uuid_inj e
  have "\<exists>g. AddGroupModal_handleSubmit demo_uuid 0 ''t1'' empty_store ''Pair'' [''A'', ''B'']
             = (empty_store \<lparr> groups := groups empty_store @ [g] \<rparr>, 3)
          \<and> group_id g = ''u'' \<and> group_name g = ''Pair''
          \<and> map member_name (members g) = [''A'', ''B'']
          \<and> map member_id (members g) = [''uu'', ''uuu'']
          \<and> distinct (group_id g # map member_id (members g))
          \<and> set (group_id g # map member_id (members g)) \<inter> used_ids empty_store = {}
          \<and> used_ids (empty_store \<lparr> groups := groups empty_store @ [g] \<rparr>) \<subseteq> demo_uuid ` {..<3}"
    by (simp add: demo_uuid_def u numeral_3_eq_3) (elim exE conjE, intro exI conjI; assumption)
  with one solo two demo_uuid_inj e show ?thesis by (intro conjI)
qed

text \<open>
  A name of blanks only is not empty, yet no group is appended.
\<close>

theorem AddGroupModal_nonempty_name_counterexample:
  "'' '' \<noteq> [] \<and> foldl addMember [] [''Ann'', ''Bob''] = [''Ann'', ''Bob'']
   \<and> 2 \<le> length [''Ann'', ''Bob'']
   \<and> AddGroupModal_handleSubmit demo_uuid 0 ''t1'' empty_store '' '' [''Ann'', ''Bob'']
       = (empty_store, 0)"
  by (simp add: AddGroupModal_handleSubmit_def addMember_def trim_def js_whitespace_def)

text \<open>
  C7. \<open>AddExpenseModal.handleSubmit\<close> sets an error and leaves the store as it is when
  the description is empty after trimming, the amount box is empty, no payer is chosen,
  or, for custom splits, when the difference between the amount and the sum of the
  splits, both computed in binary64, is above 0.01 in absolute value, or some split box
  is empty or not above 0. In particular "Trip", 100, custom splits of 40 and 40 is
  rejected with the mismatch of 80 against 100.
\<close>

theorem AddExpenseModal_handleSubmit_rejects:
  "(trim description = [] \<or> amount = None \<or> paidBy = []
      \<or> (splitType = ''custom''
          \<and> (js_gt (js_abs (js_sub (parseFloat amount) (splitTotal customSplits))) tolerance
             \<or> (\<exists>s\<in>set customSplits. cs_amount s = None
                    \<or> js_le (parseFloat (cs_amount s)) (Num 0))))
     \<longrightarrow> (\<exists>err. AddExpenseModal_handleSubmit newId now st grp description amount paidBy
                   splitType customSplits = (Some err, Inr st)))
   \<and> (paidBy \<noteq> [] \<longrightarrow>
        AddExpenseModal_handleSubmit newId now st grp ''Trip'' (Some 100) paidBy ''custom''
          [\<lparr> cs_memberId = b, cs_amount = Some 40 \<rparr>, \<lparr> cs_memberId = c, cs_amount = Some 40 \<rparr>]
        = (Some (SplitMismatch (Num 80) (Num 100)), Inr st))"
proof (intro conjI impI)
  assume bad: "trim description = [] \<or> amount = None \<or> paidBy = []
      \<or> (splitType = ''custom''
          \<and> (js_gt (js_abs (js_sub (parseFloat amount) (splitTotal customSplits))) tolerance
             \<or> (\<exists>s\<in>set customSplits. cs_amount s = None
                    \<or> js_le (parseFloat (cs_amount s)) (Num 0))))"
  show "\<exists>err. AddExpenseModal_handleSubmit newId now st grp description amount paidBy
                   splitType customSplits = (Some err, Inr st)"
  proof (cases "trim description = [] \<or> amount = None \<or> paidBy = []")
    case True
    then show ?thesis by (simp add: AddExpenseModal_handleSubmit_def)
  next
    case False
    with bad have custom: "splitType = ''custom''"
      and why: "js_gt (js_abs (js_sub (parseFloat amount) (splitTotal customSplits))) tolerance
             \<or> (\<exists>s\<in>set customSplits. cs_amount s = None
                    \<or> js_le (parseFloat (cs_amount s)) (Num 0))"
      by blast+
    from why have "js_gt (js_abs (js_sub (parseFloat amount) (splitTotal customSplits))) tolerance
        \<or> list_ex (\<lambda>s. cs_amount s = None \<or> js_le (parseFloat (cs_amount s)) (Num 0)) customSplits"
      unfolding list_ex_iff by blast
    then have "\<exists>err. validateCustomSplits amount customSplits = Some err"
      by (auto simp: validateCustomSplits_def Let_def)
    then obtain err where "validateCustomSplits amount customSplits = Some err" by blast
    with False custom show ?thesis
      by (simp add: AddExpenseModal_handleSubmit_def)
  qed
next
  assume "paidBy \<noteq> []"
  moreover have "trim ''Trip'' \<noteq> []" by (simp add: trim_def js_whitespace_def)
  moreover have "validateCustomSplits (Some 100)
      [\<lparr> cs_memberId = b, cs_amount = Some 40 \<rparr>, \<lparr> cs_memberId = c, cs_amount = Some 40 \<rparr>]
      = Some (SplitMismatch (Num 80) (Num 100))"
    by (simp add: validateCustomSplits_def splitTotal_def js_or_zero_def js_eval)
  ultimately show "AddExpenseModal_handleSubmit newId now st grp ''Trip'' (Some 100) paidBy ''custom''
          [\<lparr> cs_memberId = b, cs_amount = Some 40 \<rparr>, \<lparr> cs_memberId = c, cs_amount = Some 40 \<rparr>]
        = (Some (SplitMismatch (Num 80) (Num 100)), Inr st)"
    by (simp add: AddExpenseModal_handleSubmit_def)
qed

theorem AddExpenseModal_handleSubmit_rejects_witness:
  "splitTotal [\<lparr> cs_memberId = ''A'', cs_amount = None \<rparr>,
               \<lparr> cs_memberId = ''B'', cs_amount = Some 40 \<rparr>,
               \<lparr> cs_memberId = ''C'', cs_amount = Some 40 \<rparr>] = Num 80
   \<and> AddExpenseModal_handleSubmit ''e1'' ''t1'' demo_store demo_group ''Trip'' (Some 100) ''A''
        ''custom'' [\<lparr> cs_memberId = ''B'', cs_amount = Some 40 \<rparr>,
                    \<lparr> cs_memberId = ''C'', cs_amount = Some 40 \<rparr>]
      = (Some (SplitMismatch (Num 80) (Num 100)), Inr demo_store)
   \<and> (\<exists>err. AddExpenseModal_handleSubmit ''e1'' ''t1'' demo_store demo_group ''Trip'' (Some 100)
        ''A'' ''custom'' [\<lparr> cs_memberId = ''A'', cs_amount = None \<rparr>,
                          \<lparr> cs_memberId = ''B'', cs_amount = Some 40 \<rparr>,
                          \<lparr> cs_memberId = ''C'', cs_amount = Some 40 \<rparr>]
      = (Some err, Inr demo_store))"
proof -
  have t: "splitTotal [\<lparr> cs_memberId = ''A'', cs_amount = None \<rparr>,
               \<lparr> cs_memberId = ''B'', cs_amount = Some 40 \<rparr>,
               \<lparr> cs_memberId = ''C'', cs_amount = Some 40 \<rparr>] = Num 80"
    by (simp add: splitTotal_def js_or_zero_def js_eval)
  from AddExpenseModal_handleSubmit_rejects [of "''Trip''" "Some 100" "''A''" "''custom''"
      "[\<lparr> cs_memberId = ''A'', cs_amount = None \<rparr>, \<lparr> cs_memberId = ''B'', cs_amount = Some 40 \<rparr>,
        \<lparr> cs_memberId = ''C'', cs_amount = Some 40 \<rparr>]"
      "''e1''" "''t1''" demo_store demo_group "''B''" "''C''"] t
  show ?thesis by simp
qed

text \<open>
  An amount that is not above 0 is not rejected: -5, split equally, is appended. And
  custom splits whose exact sum is outside 0.01 of the amount are accepted when the
  binary64 difference is not: 0.02 against 0.005 and 0.0049999999999999999.
\<close>

theorem AddExpenseModal_negative_amount_counterexample:
  "AddExpenseModal_handleSubmit ''e1'' ''t1'' demo_store demo_group ''Refund'' (Some (- 5)) ''A''
     ''equal'' []
   = (None, Inr (demo_store \<lparr> expenses :=
        [\<lparr> exp_id = ''e1'', exp_groupId = ''g'', exp_description = ''Refund'',
           exp_amount = Num (- 5), exp_paidBy = ''A'',
           exp_splits =
             [\<lparr> split_memberId = ''A'',
                 split_amount = Num (- (7505999378950827 / 4503599627370496)) \<rparr>,
              \<lparr> split_memberId = ''B'',
                 split_amount = Num (- (7505999378950827 / 4503599627370496)) \<rparr>,
              \<lparr> split_memberId = ''C'',
                 split_amount = Num (- (7505999378950827 / 4503599627370496)) \<rparr>],
           exp_splitType = ''equal'', exp_date = ''t1'' \<rparr>] \<rparr>))
   \<and> AddExpenseModal_handleSubmit ''e1'' ''t1'' pair_store demo_pair ''Mint'' (Some (2 / 100)) ''A''
      ''custom'' [\<lparr> cs_memberId = ''A'', cs_amount = Some (5 / 1000) \<rparr>,
                  \<lparr> cs_memberId = ''B'', cs_amount = Some (49999999999999999 / 10 ^ 19) \<rparr>]
     = (None, Inr mint_store)
   \<and> (1 / 100 :: rat) < \<bar>2 / 100 - (5 / 1000 + 49999999999999999 / 10 ^ 19)\<bar>"
proof -
  have a: "AddExpenseModal_handleSubmit ''e1'' ''t1'' demo_store demo_group ''Refund'' (Some (- 5)) ''A''
     ''equal'' []
   = (None, Inr (demo_store \<lparr> expenses :=
        [\<lparr> exp_id = ''e1'', exp_groupId = ''g'', exp_description = ''Refund'',
           exp_amount = Num (- 5), exp_paidBy = ''A'',
           exp_splits =
             [\<lparr> split_memberId = ''A'',
                 split_amount = Num (- (7505999378950827 / 4503599627370496)) \<rparr>,
              \<lparr> split_memberId = ''B'',
                 split_amount = Num (- (7505999378950827 / 4503599627370496)) \<rparr>,
              \<lparr> split_memberId = ''C'',
                 split_amount = Num (- (7505999378950827 / 4503599627370496)) \<rparr>],
           exp_splitType = ''equal'', exp_date = ''t1'' \<rparr>] \<rparr>))"
    using refund_share
    by (simp add: AddExpenseModal_handleSubmit_def trim_def js_whitespace_def addExpense_def
        demo_store_def demo_group_def js_eval)
  have b: "(1 / 100 :: rat) < \<bar>2 / 100 - (5 / 1000 + 49999999999999999 / 10 ^ 19)\<bar>"
    by simp
  from a mint_submit b show ?thesis by (intro conjI)
qed

text \<open>
  C8. \<open>recordPayment\<close> checks nothing and never fails: for every group id, sender,
  receiver and amount it appends one payment. What it is called with is decided by its
  one caller, \<open>handleSettlement\<close>: for a settlement that \<open>settleDebts\<close> returned for a
  balance object (distinct keys) and the group, the payment appended has sender and
  receiver among the members of the group, sender different from receiver, and an
  amount above 0.
\<close>

theorem recordPayment_validated_by_caller:
  "length (payments (recordPayment newId now st gid f t a)) = Suc (length (payments st))
   \<and> (distinct (map fst balances) \<and> settleDebts balances grp = Some (Inr ss) \<and> s \<in> set ss \<longrightarrow>
        (\<exists>p. payments (handleSettlement True newId now st grp s) = payments st @ [p]
           \<and> pay_groupId p = group_id grp
           \<and> pay_fromId p \<in> member_id ` set (members grp)
           \<and> pay_toId p \<in> member_id ` set (members grp)
           \<and> pay_fromId p \<noteq> pay_toId p
           \<and> js_gt (pay_amount p) (Num 0)))"
proof (intro conjI impI)
  show "length (payments (recordPayment newId now st gid f t a)) = Suc (length (payments st))"
    by (simp add: recordPayment_def)
next
  assume h: "distinct (map fst balances) \<and> settleDebts balances grp = Some (Inr ss) \<and> s \<in> set ss"
  then have ok: "settlement_ok (members grp) (entry_memberId ` set (creditorsOf balances))
            (entry_memberId ` set (debtorsOf balances)) s"
    using settleDebts_settlements by blast
  then have amt: "js_le tolerance (s_amount s)"
    and to: "s_toId s \<in> entry_memberId ` set (creditorsOf balances)"
    and fr: "s_fromId s \<in> entry_memberId ` set (debtorsOf balances)"
    and fm: "\<exists>m\<in>set (members grp). member_id m = s_fromId s \<and> member_name m = s_from s"
    and tm: "\<exists>m\<in>set (members grp). member_id m = s_toId s \<and> member_name m = s_to s"
    by (simp_all only: settlement_ok_def)
  from amt have pos: "js_gt (s_amount s) (Num 0)" by (rule js_le_tolerance_pos)
  have ne: "s_fromId s \<noteq> s_toId s"
  proof
    assume "s_fromId s = s_toId s"
    with to fr have "s_toId s \<in> entry_memberId ` set (creditorsOf balances)
        \<inter> entry_memberId ` set (debtorsOf balances)"
      by (simp only: Int_iff)
    with creditors_debtors_disjoint [of balances] h show False
      by (simp only: empty_iff)
  qed
  from fm have fin: "s_fromId s \<in> member_id ` set (members grp)" by force
  from tm have tin: "s_toId s \<in> member_id ` set (members grp)" by force
  let ?p = "\<lparr> pay_id = newId, pay_groupId = group_id grp, pay_fromId = s_fromId s,
              pay_toId = s_toId s, pay_amount = s_amount s, pay_date = now \<rparr>"
  have "payments (handleSettlement True newId now st grp s) = payments st @ [?p]"
    by (simp add: handleSettlement_def recordPayment_def)
  with pos ne fin tin show "\<exists>p. payments (handleSettlement True newId now st grp s) = payments st @ [p]
           \<and> pay_groupId p = group_id grp
           \<and> pay_fromId p \<in> member_id ` set (members grp)
           \<and> pay_toId p \<in> member_id ` set (members grp)
           \<and> pay_fromId p \<noteq> pay_toId p
           \<and> js_gt (pay_amount p) (Num 0)"
    by (intro exI [of _ ?p]) simp
qed

theorem recordPayment_validated_by_caller_witness:
  "distinct (map fst demo_balances)
   \<and> payments (handleSettlement True ''p1'' ''t1'' demo_store demo_group demo_settlement)
      = [\<lparr> pay_id = ''p1'', pay_groupId = ''g'', pay_fromId = ''B'', pay_toId = ''A'',
           pay_amount = Num 30, pay_date = ''t1'' \<rparr>]
   \<and> (\<exists>p. payments (handleSettlement True ''p1'' ''t1'' demo_store demo_group demo_settlement)
            = payments demo_store @ [p]
         \<and> pay_fromId p \<in> member_id ` set (members demo_group)
         \<and> pay_toId p \<in> member_id ` set (members demo_group)
         \<and> pay_fromId p \<noteq> pay_toId p \<and> js_gt (pay_amount p) (Num 0))"
proof -
  have k: "distinct (map fst demo_balances)" by (simp add: demo_balances_def)
  have e: "payments (handleSettlement True ''p1'' ''t1'' demo_store demo_group demo_settlement)
      = [\<lparr> pay_id = ''p1'', pay_groupId = ''g'', pay_fromId = ''B'', pay_toId = ''A'',
           pay_amount = Num 30, pay_date = ''t1'' \<rparr>]"
    by (simp add: handleSettlement_def recordPayment_def demo_store_def demo_group_def
          demo_settlement_def)
  from recordPayment_validated_by_caller [of "''p1''" "''t1''" demo_store "''g''" "''B''" "''A''" "Num 30"
      demo_balances demo_group _ demo_settlement] k demo_settle demo_settlement_emitted
  have "\<exists>p. payments (handleSettlement True ''p1'' ''t1'' demo_store demo_group demo_settlement)
            = payments demo_store @ [p]
         \<and> pay_fromId p \<in> member_id ` set (members demo_group)
         \<and> pay_toId p \<in> member_id ` set (members demo_group)
         \<and> pay_fromId p \<noteq> pay_toId p \<and> js_gt (pay_amount p) (Num 0)"
    by blast
  with k e show ?thesis by simp
qed

text \<open>
  Called with a sender that is no member, equal to the receiver, and a negative amount,
  \<open>recordPayment\<close> appends the payment.
\<close>

theorem recordPayment_no_validation_counterexample:
  "''Z'' \<notin> member_id ` set (members demo_group)
   \<and> payments (recordPayment ''p1'' ''t1'' demo_store ''g'' ''Z'' ''Z'' (Num (- 5)))
     = [\<lparr> pay_id = ''p1'', pay_groupId = ''g'', pay_fromId = ''Z'', pay_toId = ''Z'',
          pay_amount = Num (- 5), pay_date = ''t1'' \<rparr>]"
  by (simp add: recordPayment_def demo_store_def demo_group_def)

text \<open>
  C9. A call of \<open>recordPayment\<close> appends exactly one payment record carrying the given
  group id, sender, receiver and amount to the payments collection; every payment
  recorded before is still there, unchanged and in the same position, and the groups and
  the expenses collections are unchanged. The call cannot fail, so every call is a
  successful one.
\<close>

theorem recordPayment_appends_one:
  "payments (recordPayment newId now st g f t a) =
     payments st @ [\<lparr> pay_id = newId, pay_groupId = g, pay_fromId = f, pay_toId = t,
                      pay_amount = a, pay_date = now \<rparr>]
   \<and> take (length (payments st)) (payments (recordPayment newId now st g f t a)) = payments st
   \<and> length (payments (recordPayment newId now st g f t a)) = Suc (length (payments st))
   \<and> groups (recordPayment newId now st g f t a) = groups st
   \<and> expenses (recordPayment newId now st g f t a) = expenses st"
  by (simp add: recordPayment_def)

text \<open>
  C10. For every balance object (its keys are distinct, as the keys of an object are) no
  settlement that \<open>settleDebts\<close> returns has the same member as sender and receiver: an
  id is among the creditors or among the debtors, never both.
\<close>

theorem settleDebts_no_self_transfer:
  assumes "distinct (map fst balances)" and "settleDebts balances grp = Some (Inr ss)" and "s \<in> set ss"
  shows "s_fromId s \<noteq> s_toId s"
proof -
  from settleDebts_settlements [OF assms(2)] assms(3)
  have to: "s_toId s \<in> entry_memberId ` set (creditorsOf balances)"
    and fr: "s_fromId s \<in> entry_memberId ` set (debtorsOf balances)"
    by (simp_all only: settlement_ok_def)
  show ?thesis
  proof
    assume "s_fromId s = s_toId s"
    with to fr have "s_toId s \<in> entry_memberId ` set (creditorsOf balances)
        \<inter> entry_memberId ` set (debtorsOf balances)"
      by (simp only: Int_iff)
    with creditors_debtors_disjoint [OF assms(1)] show False
      by (simp only: empty_iff)
  qed
qed

theorem settleDebts_no_self_transfer_witness:
  "distinct (map fst demo_balances) \<and> s_fromId demo_settlement \<noteq> s_toId demo_settlement"
proof -
  have k: "distinct (map fst demo_balances)" by (simp add: demo_balances_def)
  from settleDebts_no_self_transfer [OF k demo_settle demo_settlement_emitted] k
  show ?thesis by simp
qed

end
